theory Spec2Isabelle
  imports Complex_Main "HOL-Library.Word" "HOL-Library.Multiset" "HOL-Library.Product_Lexorder"
    "HOL-Library.Sublist"
begin

section \<open>Data model of the tree trainer (package trees)\<close>

text \<open>
  Go panics are values of \<open>error\<close>: the two explicit \<open>panic\<close> calls of the package,
  and the runtime panics its statements can raise (an index out of range, a field read
  through a nil pointer, \<open>make\<close> with a negative length).
\<close>

datatype error =
    UnsupportedTreeCount
  | UnsupportedFeature
  | IndexOutOfRange
  | NilDereference
  | NegativeLength

text \<open>Go's \<open>xs[i]\<close>: a runtime panic outside \<open>0 \<le> i < len(xs)\<close>.\<close>

definition idx :: "'a list \<Rightarrow> int \<Rightarrow> error + 'a" where
  "idx xs i = (if 0 \<le> i \<and> i < int (length xs) then Inr (xs ! nat i) else Inl IndexOutOfRange)"

text \<open>
  \<open>*node\<close>. \<open>NilNode\<close> is the nil pointer. A node owns its two children, so the pointer
  structure below a root is a tree and is modelled as one; the \<open>parent\<close> back pointer is
  only read by commented-out code and is left out. \<open>inputs []int\<close> is a slice: a window
  (\<open>inStart\<close>, \<open>inLen\<close>) on the backing array that the root allocated, shared by all
  descendants (\<open>n.inputs[:slicePoint]\<close> does not copy). The backing arrays live in the
  forest (\<open>inputsMem\<close>), one per root.
\<close>

datatype node =
    NilNode
  | Node (inStart: nat) (inLen: nat)
      (classifyAsTrue: bool) (misclassified: int)
      (decideFeature: int) (decideCutoff: int)
      (lowerChild: node) (highEqChild: node)
      (isLeaf: bool) (originalRoot: int)

text \<open>
  A pointer into the forest, as the queue stores it: nil, or the node reached from root
  \<open>i\<close> by a path of child selections (\<open>False\<close> = \<open>lowerChild\<close>, \<open>True\<close> = \<open>highEqChild\<close>).
\<close>

type_synonym nodeRef = "(nat \<times> bool list) option"

text \<open>
  Samples are Go \<open>int\<close>s (64 bits on the platforms the program targets); the one place
  where they are subtracted wraps around. Counts and indices are bounded by slice
  lengths and are plain integers.
\<close>

type_synonym sample = "64 word"

record Forest =
  frameSize :: int
  treeCount :: int
  minMisclassified :: int
  leafQueue :: "nodeRef list"
  allowed :: "int list list"
  roots :: "node list"
  inputsMem :: "int list list"
  trainFrameCount :: int
  trainSamples :: "sample list"
  trainExpected :: "int list"

record splitDetails =
  splitValue :: int
  splitFeature :: int
  trueBelow :: bool
  misses :: int
  missesBelow :: int
  missesAbove :: int

section \<open>Feature extractor\<close>

definition scoreForFrameAndFeature :: "Forest \<Rightarrow> int \<Rightarrow> int \<Rightarrow> error + int" where
  "scoreForFrameAndFeature f frame feature =
     (if feature < frameSize f then
        (case idx (trainSamples f) (frame + feature) of
           Inl e \<Rightarrow> Inl e
         | Inr v \<Rightarrow> Inr (sint v))
      else if feature - frameSize f < frameSize f - 1 then
        (let first = frame + (feature - frameSize f) in
         case idx (trainSamples f) (first + 1) of
           Inl e \<Rightarrow> Inl e
         | Inr a \<Rightarrow>
             (case idx (trainSamples f) first of
                Inl e \<Rightarrow> Inl e
              | Inr b \<Rightarrow> Inr (sint (a - b))))
      else Inl UnsupportedFeature)"

section \<open>Forest construction\<close>

text \<open>
  \<open>NewForest\<close>. \<open>make\<close> panics on a negative length, which happens before the tree-count
  check for a negative \<open>treeCount\<close> and after it for \<open>frameSize \<le> 0\<close>. The queue and the
  roots start as \<open>treeCount\<close> nil pointers.
\<close>

definition NewForest :: "int \<Rightarrow> int \<Rightarrow> int \<Rightarrow> error + Forest" where
  "NewForest frameSize' treeCount' minMisclassified' =
     (let features = 2 * frameSize' - 1 in
      if treeCount' < 0 then Inl NegativeLength
      else if treeCount' \<noteq> 1 then Inl UnsupportedTreeCount
      else if features < 0 then Inl NegativeLength
      else Inr \<lparr> frameSize = frameSize',
                 treeCount = treeCount',
                 minMisclassified = minMisclassified',
                 leafQueue = replicate (nat treeCount') None,
                 allowed = [map int [0 ..< nat features]],
                 roots = replicate (nat treeCount') NilNode,
                 inputsMem = replicate (nat treeCount') [],
                 trainFrameCount = - 1,
                 trainSamples = [],
                 trainExpected = [] \<rparr>)"

section \<open>Split search\<close>

fun mapE :: "('a \<Rightarrow> error + 'b) \<Rightarrow> 'a list \<Rightarrow> error + 'b list" where
  "mapE g [] = Inr []"
| "mapE g (x # xs) =
     (case g x of
        Inl e \<Rightarrow> Inl e
      | Inr y \<Rightarrow> (case mapE g xs of Inl e \<Rightarrow> Inl e | Inr ys \<Rightarrow> Inr (y # ys)))"

text \<open>The contents of \<open>n.inputs\<close>: the node's window on its root's backing array.\<close>

definition nodeInputs :: "int list \<Rightarrow> node \<Rightarrow> int list" where
  "nodeInputs mem n = take (inLen n) (drop (inStart n) mem)"

text \<open>
  The sweep of \<open>splitReduction\<close> over the sorted (score, frame) pairs, one call per value
  of \<open>splitBefore\<close>. \<open>lastSplit\<close> is \<open>dsii.V1[splitBefore - 1]\<close> (absent at position 0).
  \<open>considerSplit\<close> is set to \<open>true\<close> in both branches of the source's test for a
  repeated score, which is written out as it stands.
\<close>

fun sweep :: "Forest \<Rightarrow> int \<Rightarrow> int option \<Rightarrow> (int \<times> int) list \<Rightarrow> splitDetails
    \<Rightarrow> int \<Rightarrow> int \<Rightarrow> int \<Rightarrow> int \<Rightarrow> error + splitDetails" where
  "sweep f feature lastSplit [] bestSplit nTrueBelow nTrueAbove nFalseBelow nFalseAbove =
     Inr bestSplit"
| "sweep f feature lastSplit ((thisSplit, fr) # rest) bestSplit
       nTrueBelow nTrueAbove nFalseBelow nFalseAbove =
     (let considerSplit =
            (case lastSplit of
               None \<Rightarrow> True
             | Some l \<Rightarrow> if thisSplit = l then True else True);
          missAsFalseBelow = nTrueBelow + nFalseAbove;
          missAsTrueBelow = nFalseBelow + nTrueAbove;
          bestSplit' =
            (if considerSplit then
               (if missAsTrueBelow < missAsFalseBelow then
                  (if missAsTrueBelow < misses bestSplit then
                     \<lparr> splitValue = thisSplit, splitFeature = feature, trueBelow = True,
                       misses = missAsTrueBelow, missesBelow = nFalseBelow,
                       missesAbove = nTrueAbove \<rparr>
                   else bestSplit)
                else
                  (if missAsFalseBelow < misses bestSplit then
                     \<lparr> splitValue = thisSplit, splitFeature = feature, trueBelow = False,
                       misses = missAsFalseBelow, missesBelow = nTrueBelow,
                       missesAbove = nFalseAbove \<rparr>
                   else bestSplit))
             else bestSplit)
      in case idx (trainExpected f) (fr + frameSize f - 1) of
           Inl e \<Rightarrow> Inl e
         | Inr l \<Rightarrow>
             if l = 1 then
               sweep f feature (Some thisSplit) rest bestSplit'
                 (nTrueBelow + 1) (nTrueAbove - 1) nFalseBelow nFalseAbove
             else
               sweep f feature (Some thisSplit) rest bestSplit'
                 nTrueBelow nTrueAbove (nFalseBelow + 1) (nFalseAbove - 1))"

text \<open>
  \<open>splitReduction\<close>, on the contents \<open>inputs\<close> of \<open>n.inputs\<close>. \<open>sort.Sort(dsii)\<close> orders the
  pairs by \<open>DualSortII.Less\<close>, the lexicographic order on (score, frame): the result is
  the sorted list of pairs (the lexicographic order of pairs of integers is total, so
  the sorted list is unique whatever algorithm the library runs). The loop that fills
  \<open>tmp\<close> only reads, but its reads can panic.
\<close>

definition splitReduction :: "Forest \<Rightarrow> int list \<Rightarrow> node \<Rightarrow> int \<Rightarrow> error + splitDetails" where
  "splitReduction f inputs n feature =
     (let nFrames = int (length inputs);
          nTrueAbove = (if classifyAsTrue n then nFrames - misclassified n else misclassified n);
          nFalseAbove = (if classifyAsTrue n then misclassified n else nFrames - misclassified n)
      in case mapE (\<lambda>frame. scoreForFrameAndFeature f frame feature) inputs of
           Inl e \<Rightarrow> Inl e
         | Inr v1 \<Rightarrow>
             (let dsii = sort (zip v1 inputs) in
              case mapE (\<lambda>(s, fr). idx (trainExpected f) (fr + frameSize f - 1)) dsii of
                Inl e \<Rightarrow> Inl e
              | Inr tmp \<Rightarrow>
                  sweep f feature None dsii
                    \<lparr> splitValue = - 1, splitFeature = - 1, trueBelow = False,
                      misses = misclassified n, missesBelow = - 1, missesAbove = - 1 \<rparr>
                    0 nTrueAbove 0 nFalseAbove))"

section \<open>In-place partition and split\<close>

text \<open>
  The test both scans of \<open>presplitOn\<close> make on a frame: \<open>isBelow == split.trueBelow\<close>.
  The low scan stops where it is false, the high scan where it is true.
\<close>

definition staysLow :: "Forest \<Rightarrow> splitDetails \<Rightarrow> int \<Rightarrow> error + bool" where
  "staysLow f split frame =
     (case scoreForFrameAndFeature f frame (splitFeature split) of
        Inl e \<Rightarrow> Inl e
      | Inr score \<Rightarrow> Inr ((score < splitValue split) = trueBelow split))"

text \<open>\<open>for ; lo < hi; lo++ { ... if isBelow != split.trueBelow { break } }\<close>\<close>

function scanLo :: "(int \<Rightarrow> error + bool) \<Rightarrow> int list \<Rightarrow> int \<Rightarrow> int \<Rightarrow> error + int" where
  "scanLo p xs lo hi =
     (if lo < hi then
        (case idx xs lo of
           Inl e \<Rightarrow> Inl e
         | Inr x \<Rightarrow>
             (case p x of
                Inl e \<Rightarrow> Inl e
              | Inr b \<Rightarrow> if \<not> b then Inr lo else scanLo p xs (lo + 1) hi))
      else Inr lo)"
  by pat_completeness auto
termination
  by (relation "measure (\<lambda>(p, xs, lo, hi). nat (hi - lo))") auto

declare scanLo.simps [simp del]

text \<open>\<open>for ; lo < hi; hi-- { ... if isBelow == split.trueBelow { break } }\<close>\<close>

function scanHi :: "(int \<Rightarrow> error + bool) \<Rightarrow> int list \<Rightarrow> int \<Rightarrow> int \<Rightarrow> error + int" where
  "scanHi p xs lo hi =
     (if lo < hi then
        (case idx xs hi of
           Inl e \<Rightarrow> Inl e
         | Inr x \<Rightarrow>
             (case p x of
                Inl e \<Rightarrow> Inl e
              | Inr b \<Rightarrow> if b then Inr hi else scanHi p xs lo (hi - 1)))
      else Inr hi)"
  by pat_completeness auto
termination
  by (relation "measure (\<lambda>(p, xs, lo, hi). nat (hi - lo))") auto

declare scanHi.simps [simp del]

text \<open>\<open>n.inputs[lo], n.inputs[hi] = n.inputs[hi], n.inputs[lo]\<close>\<close>

definition swapAt :: "'a list \<Rightarrow> int \<Rightarrow> int \<Rightarrow> error + 'a list" where
  "swapAt xs i j =
     (case idx xs i of
        Inl e \<Rightarrow> Inl e
      | Inr a \<Rightarrow>
          (case idx xs j of
             Inl e \<Rightarrow> Inl e
           | Inr b \<Rightarrow> Inr (xs[nat i := b, nat j := a])))"

text \<open>Whether the low scan stops at once at \<open>lo\<close> (used to measure the outer loop).\<close>

definition stopsAt :: "(int \<Rightarrow> error + bool) \<Rightarrow> int list \<Rightarrow> int \<Rightarrow> bool" where
  "stopsAt p xs lo =
     (case idx xs lo of
        Inl e \<Rightarrow> False
      | Inr x \<Rightarrow> (case p x of Inl e \<Rightarrow> False | Inr b \<Rightarrow> \<not> b))"

lemma scanLo_bounds: "scanLo p xs lo hi = Inr r \<Longrightarrow> lo \<le> hi \<Longrightarrow> lo \<le> r \<and> r \<le> hi"
proof (induction p xs lo hi rule: scanLo.induct)
  case (1 p xs lo hi)
  note unf = scanLo.simps [of p xs lo hi]
  show ?case
  proof (cases "lo < hi")
    case False
    with "1.prems" unf show ?thesis by simp
  next
    case True
    from "1.prems"(1) True unf obtain x b where x: "idx xs lo = Inr x" and b: "p x = Inr b"
      by (auto split: sum.splits)
    show ?thesis
    proof (cases b)
      case False
      with "1.prems"(1) True x b unf show ?thesis by simp
    next
      case True
      with "1.prems"(1) \<open>lo < hi\<close> x b unf have "scanLo p xs (lo + 1) hi = Inr r" by simp
      with "1.IH" [OF \<open>lo < hi\<close> x b] True \<open>lo < hi\<close> show ?thesis by simp
    qed
  qed
qed

lemma scanLo_stays: "scanLo p xs lo hi = Inr lo \<Longrightarrow> lo < hi \<Longrightarrow> stopsAt p xs lo"
proof -
  assume r: "scanLo p xs lo hi = Inr lo" and lt: "lo < hi"
  note unf = scanLo.simps [of p xs lo hi]
  from r lt unf obtain x b where x: "idx xs lo = Inr x" and b: "p x = Inr b"
    by (auto split: sum.splits)
  show ?thesis
  proof (cases b)
    case False
    with x b show ?thesis by (simp add: stopsAt_def)
  next
    case True
    with r lt x b unf have "scanLo p xs (lo + 1) hi = Inr lo" by simp
    from scanLo_bounds [OF this] lt show ?thesis by simp
  qed
qed

lemma scanHi_bounds: "scanHi p xs lo hi = Inr r \<Longrightarrow> lo \<le> hi \<Longrightarrow> lo \<le> r \<and> r \<le> hi"
proof (induction p xs lo hi rule: scanHi.induct)
  case (1 p xs lo hi)
  note unf = scanHi.simps [of p xs lo hi]
  show ?case
  proof (cases "lo < hi")
    case False
    with "1.prems" unf show ?thesis by simp
  next
    case True
    from "1.prems"(1) True unf obtain x b where x: "idx xs hi = Inr x" and b: "p x = Inr b"
      by (auto split: sum.splits)
    show ?thesis
    proof (cases b)
      case True
      with "1.prems"(1) \<open>lo < hi\<close> x b unf show ?thesis by simp
    next
      case False
      with "1.prems"(1) \<open>lo < hi\<close> x b unf have "scanHi p xs lo (hi - 1) = Inr r" by simp
      with "1.IH" [OF \<open>lo < hi\<close> x b] False \<open>lo < hi\<close> show ?thesis by simp
    qed
  qed
qed

lemma scanHi_stays:
  "scanHi p xs lo hi = Inr hi \<Longrightarrow> lo < hi \<Longrightarrow> \<exists>x. idx xs hi = Inr x \<and> p x = Inr True"
proof -
  assume r: "scanHi p xs lo hi = Inr hi" and lt: "lo < hi"
  note unf = scanHi.simps [of p xs lo hi]
  from r lt unf obtain x b where x: "idx xs hi = Inr x" and b: "p x = Inr b"
    by (auto split: sum.splits)
  show ?thesis
  proof (cases b)
    case True
    with x b show ?thesis by simp
  next
    case False
    with r lt x b unf have "scanHi p xs lo (hi - 1) = Inr hi" by simp
    from scanHi_bounds [OF this] lt show ?thesis by simp
  qed
qed

lemma swapAt_stops:
  assumes "swapAt xs i j = Inr ys" and "idx xs j = Inr x" and "p x = Inr True" and "i \<noteq> j"
  shows "\<not> stopsAt p ys i"
proof -
  from assms(1) have i: "0 \<le> i" "i < int (length xs)"
    by (auto simp: swapAt_def idx_def split: if_splits sum.splits)
  from assms(2) have j: "0 \<le> j" "j < int (length xs)" "xs ! nat j = x"
    by (auto simp: idx_def split: if_splits)
  from assms(1) i j have ys: "ys = xs[nat i := xs ! nat j, nat j := xs ! nat i]"
    by (simp add: swapAt_def idx_def)
  from i j assms(4) have "nat i \<noteq> nat j" by auto
  with i j ys have "ys ! nat i = x" "length ys = length xs" by simp_all
  with i assms(3) show ?thesis by (simp add: stopsAt_def idx_def)
qed

text \<open>The outer loop \<open>for lo < hi { scan; scan; if lo != hi { swap } }\<close> of \<open>presplitOn\<close>.\<close>

function hoare :: "(int \<Rightarrow> error + bool) \<Rightarrow> int list \<Rightarrow> int \<Rightarrow> int \<Rightarrow> error + (int list \<times> int)" where
  "hoare p xs lo hi =
     (if lo < hi then
        (case scanLo p xs lo hi of
           Inl e \<Rightarrow> Inl e
         | Inr lo1 \<Rightarrow>
             (case scanHi p xs lo1 hi of
                Inl e \<Rightarrow> Inl e
              | Inr hi1 \<Rightarrow>
                  if lo1 \<noteq> hi1 then
                    (case swapAt xs lo1 hi1 of
                       Inl e \<Rightarrow> Inl e
                     | Inr xs1 \<Rightarrow> hoare p xs1 lo1 hi1)
                  else hoare p xs lo1 hi1))
      else Inr (xs, lo))"
  by pat_completeness auto
termination
proof (relation "measure (\<lambda>(p, xs, lo, hi). 2 * nat (hi - lo) + (if stopsAt p xs lo then 1 else 0))",
    goal_cases)
  case 1
  show ?case by simp
next
  case (2 p xs lo hi lo1 hi1 xs1)
  from scanLo_bounds [OF 2(2)] 2(1) have l: "lo \<le> lo1" "lo1 \<le> hi" by simp_all
  from scanHi_bounds [OF 2(3) l(2)] have h: "lo1 \<le> hi1" "hi1 \<le> hi" by simp_all
  show ?case
  proof (cases "lo1 = lo \<and> hi1 = hi")
    case False
    with l h 2(1) show ?thesis by (auto split: if_splits)
  next
    case True
    with 2(2) 2(1) have s: "stopsAt p xs lo" by (simp add: scanLo_stays)
    from True 2(3) 2(1) obtain x where "idx xs hi = Inr x" "p x = Inr True"
      using scanHi_stays by blast
    with swapAt_stops [of xs lo hi xs1 x p] 2(5) 2(1) True have "\<not> stopsAt p xs1 lo" by simp
    with s True show ?thesis by simp
  qed
next
  case (3 p xs lo hi lo1 hi1)
  from scanLo_bounds [OF 3(2)] 3(1) have l: "lo \<le> lo1" "lo1 \<le> hi" by simp_all
  from 3(4) have eq: "lo1 = hi1" by simp
  show ?case
  proof (cases "lo1 = lo")
    case False
    with l eq 3(1) show ?thesis by (auto split: if_splits)
  next
    case True
    with 3(2) 3(1) have "stopsAt p xs lo" by (simp add: scanLo_stays)
    with True eq 3(1) show ?thesis by simp
  qed
qed

declare hoare.simps [simp del]

text \<open>
  \<open>presplitOn\<close>, on the backing array \<open>mem\<close> of the node's root: partitions the node's
  window in place, then allocates both children as leaves on the two parts of the
  window. (The \<open>fmt.Printf\<close> at its start only writes to standard output.)
\<close>

definition presplitOn :: "Forest \<Rightarrow> int list \<Rightarrow> node \<Rightarrow> splitDetails \<Rightarrow> error + (int list \<times> node)" where
  "presplitOn f mem n split =
     (let inputs = nodeInputs mem n; p = staysLow f split in
      case hoare p inputs 0 (int (length inputs) - 1) of
        Inl e \<Rightarrow> Inl e
      | Inr (inputs1, lo) \<Rightarrow>
          (case scanLo p inputs1 lo (int (length inputs1)) of
             Inl e \<Rightarrow> Inl e
           | Inr lo' \<Rightarrow>
               (let slicePoint = nat lo';
                    mem' = take (inStart n) mem @ inputs1 @ drop (inStart n + inLen n) mem
                in Inr (mem',
                     Node (inStart n) (inLen n) (classifyAsTrue n) (misclassified n)
                       (splitFeature split) (splitValue split)
                       (Node (inStart n) slicePoint
                          (trueBelow split) (missesBelow split)
                          (- 1) (- 1) NilNode NilNode True (originalRoot n))
                       (Node (inStart n + slicePoint) (inLen n - slicePoint)
                          (\<not> trueBelow split) (missesAbove split)
                          (- 1) (- 1) NilNode NilNode True (originalRoot n))
                       (isLeaf n) (originalRoot n)))))"

section \<open>Best split of a node\<close>

text \<open>
  \<open>int(float64(n.misclassified) * 0.99)\<close>. The conversion to \<open>int\<close> truncates towards
  zero. The product is computed in float64; for \<open>|m| < 2^46\<close> (far more frames than fit
  in memory) the rounded product lies within 0.005 of \<open>0.99 * m\<close>, and the multiples of
  100 round to the exact integer, so the truncation equals that of the exact product
  \<open>99 * m / 100\<close>, which is what is defined here.
\<close>

definition upperBar :: "int \<Rightarrow> int" where
  "upperBar m = (if 0 \<le> m then (99 * m) div 100 else - ((99 * (- m)) div 100))"

text \<open>
  The loop \<open>for splitFeature := range allowed\<close> over the keys in the order \<open>keys\<close>.
\<close>

fun bestOver :: "Forest \<Rightarrow> int list \<Rightarrow> node \<Rightarrow> int list \<Rightarrow> splitDetails \<Rightarrow> error + splitDetails" where
  "bestOver f inputs n [] bestSplit = Inr bestSplit"
| "bestOver f inputs n (feature # keys) bestSplit =
     (case splitReduction f inputs n feature of
        Inl e \<Rightarrow> Inl e
      | Inr nextSplit \<Rightarrow>
          bestOver f inputs n keys
            (if misses nextSplit < misses bestSplit then nextSplit else bestSplit))"

text \<open>
  \<open>precalcBestSplit\<close>. The keys of the map \<open>allowed\<close> are the distinct entries of
  \<open>f.allowed[n.originalRoot]\<close>. Go leaves the iteration order of a map unspecified: the
  order of this call is the parameter \<open>order\<close>, which maps the key list to the sequence
  in which \<open>range\<close> yields the keys.
\<close>

definition precalcBestSplit ::
    "Forest \<Rightarrow> (int list \<Rightarrow> int list) \<Rightarrow> int list \<Rightarrow> node \<Rightarrow> error + (int list \<times> node)" where
  "precalcBestSplit f order mem n =
     (if n = NilNode then Inl NilDereference
      else
        (case idx (allowed f) (originalRoot n) of
           Inl e \<Rightarrow> Inl e
         | Inr al \<Rightarrow>
             if length (remdups al) = 0 then Inr (mem, n)
             else
               (case bestOver f (nodeInputs mem n) n (order (remdups al))
                       \<lparr> splitValue = - 1, splitFeature = - 1, trueBelow = False,
                         misses = upperBar (misclassified n),
                         missesBelow = - 1, missesAbove = - 1 \<rparr> of
                  Inl e \<Rightarrow> Inl e
                | Inr bestSplit \<Rightarrow>
                    if splitFeature bestSplit \<noteq> - 1 then presplitOn f mem n bestSplit
                    else Inr (mem, n))))"

section \<open>Nodes by reference\<close>

fun nodeAt :: "node \<Rightarrow> bool list \<Rightarrow> node" where
  "nodeAt n [] = n"
| "nodeAt NilNode (b # bs) = NilNode"
| "nodeAt (Node s l c m df dc lo hi lf r) (b # bs) = nodeAt (if b then hi else lo) bs"

fun putAt :: "bool list \<Rightarrow> node \<Rightarrow> node \<Rightarrow> node" where
  "putAt [] n' n = n'"
| "putAt (b # bs) n' NilNode = NilNode"
| "putAt (b # bs) n' (Node s l c m df dc lo hi lf r) =
     (if b then Node s l c m df dc lo (putAt bs n' hi) lf r
      else Node s l c m df dc (putAt bs n' lo) hi lf r)"

text \<open>Following a pointer: nil (or a pointer to nothing) cannot be read.\<close>

definition derefNode :: "node list \<Rightarrow> nodeRef \<Rightarrow> error + node" where
  "derefNode rs r =
     (case r of
        None \<Rightarrow> Inl NilDereference
      | Some (t, path) \<Rightarrow>
          if t < length rs \<and> nodeAt (rs ! t) path \<noteq> NilNode then Inr (nodeAt (rs ! t) path)
          else Inl NilDereference)"

section \<open>The growth queue\<close>

text \<open>
  \<open>I.misclassified - (I.branchData.lowerChild.misclassified +
  I.branchData.highEqChild.misclassified)\<close>, as \<open>nodeQueue.Less\<close> computes it for both
  of its arguments.
\<close>

definition fixOf :: "node list \<Rightarrow> nodeRef \<Rightarrow> error + int" where
  "fixOf rs r =
     (case derefNode rs r of
        Inl e \<Rightarrow> Inl e
      | Inr n \<Rightarrow>
          if lowerChild n = NilNode then Inl NilDereference
          else if highEqChild n = NilNode then Inl NilDereference
          else Inr (misclassified n
                    - (misclassified (lowerChild n) + misclassified (highEqChild n))))"

definition Less :: "node list \<Rightarrow> nodeRef list \<Rightarrow> int \<Rightarrow> int \<Rightarrow> error + bool" where
  "Less rs pq i j =
     (case idx pq i of
        Inl e \<Rightarrow> Inl e
      | Inr I \<Rightarrow>
          (case idx pq j of
             Inl e \<Rightarrow> Inl e
           | Inr J \<Rightarrow>
               (case fixOf rs I of
                  Inl e \<Rightarrow> Inl e
                | Inr iFix \<Rightarrow>
                    (case fixOf rs J of
                       Inl e \<Rightarrow> Inl e
                     | Inr jFix \<Rightarrow> Inr (iFix > jFix)))))"

text \<open>
  The functions of Go's \<open>container/heap\<close> that \<open>Train\<close> and \<open>convertToBranch\<close> call, on
  the queue \<open>pq\<close>, with \<open>nodeQueue\<close>'s \<open>Less\<close>, \<open>Swap\<close>, \<open>Push\<close> and \<open>Pop\<close>.
  \<open>up\<close>: \<open>for { i := (j - 1) / 2; if i == j || !h.Less(j, i) { break }; h.Swap(i, j); j = i }\<close>.
\<close>

function up :: "node list \<Rightarrow> nodeRef list \<Rightarrow> nat \<Rightarrow> error + nodeRef list" where
  "up rs pq j =
     (let i = (j - 1) div 2 in
      if i = j then Inr pq
      else
        (case Less rs pq (int j) (int i) of
           Inl e \<Rightarrow> Inl e
         | Inr b \<Rightarrow>
             if \<not> b then Inr pq
             else
               (case swapAt pq (int i) (int j) of
                  Inl e \<Rightarrow> Inl e
                | Inr pq1 \<Rightarrow> up rs pq1 i)))"
  by pat_completeness auto
termination
  by (relation "measure (\<lambda>(rs, pq, j). j)") auto

declare up.simps [simp del]

text \<open>
  \<open>down\<close>: \<open>for { j1 := 2*i + 1; if j1 >= n || j1 < 0 { break }; j := j1;
  if j2 := j1 + 1; j2 < n && h.Less(j2, j1) { j = j2 };
  if !h.Less(j, i) { break }; h.Swap(i, j); i = j }\<close>.
\<close>

function down :: "node list \<Rightarrow> nodeRef list \<Rightarrow> nat \<Rightarrow> nat \<Rightarrow> error + nodeRef list" where
  "down rs pq i n =
     (let j1 = 2 * i + 1 in
      if j1 \<ge> n then Inr pq
      else
        (case (if j1 + 1 < n then Less rs pq (int (j1 + 1)) (int j1) else Inr False) of
           Inl e \<Rightarrow> Inl e
         | Inr right \<Rightarrow>
             (let j = (if right then j1 + 1 else j1) in
              case Less rs pq (int j) (int i) of
                Inl e \<Rightarrow> Inl e
              | Inr b \<Rightarrow>
                  if \<not> b then Inr pq
                  else
                    (case swapAt pq (int i) (int j) of
                       Inl e \<Rightarrow> Inl e
                     | Inr pq1 \<Rightarrow> down rs pq1 j n))))"
  by pat_completeness auto
termination
  by (relation "measure (\<lambda>(rs, pq, i, n). n - i)") auto

declare down.simps [simp del]

text \<open>\<open>heap.Init\<close>: \<open>n := h.Len(); for i := n/2 - 1; i >= 0; i-- { down(h, i, n) }\<close>.\<close>

fun downAll :: "node list \<Rightarrow> nodeRef list \<Rightarrow> nat list \<Rightarrow> nat \<Rightarrow> error + nodeRef list" where
  "downAll rs pq [] n = Inr pq"
| "downAll rs pq (i # is) n =
     (case down rs pq i n of Inl e \<Rightarrow> Inl e | Inr pq1 \<Rightarrow> downAll rs pq1 is n)"

definition heapInit :: "node list \<Rightarrow> nodeRef list \<Rightarrow> error + nodeRef list" where
  "heapInit rs pq = downAll rs pq (rev [0 ..< length pq div 2]) (length pq)"

text \<open>\<open>heap.Push\<close>: \<open>h.Push(x); up(h, h.Len() - 1)\<close>.\<close>

definition heapPush :: "node list \<Rightarrow> nodeRef list \<Rightarrow> nodeRef \<Rightarrow> error + nodeRef list" where
  "heapPush rs pq x = up rs (pq @ [x]) (length (pq @ [x]) - 1)"

text \<open>\<open>heap.Pop\<close>: \<open>n := h.Len() - 1; h.Swap(0, n); down(h, 0, n); return h.Pop()\<close>.\<close>

definition heapPop :: "node list \<Rightarrow> nodeRef list \<Rightarrow> error + (nodeRef \<times> nodeRef list)" where
  "heapPop rs pq =
     (let n = int (length pq) - 1 in
      case swapAt pq 0 n of
        Inl e \<Rightarrow> Inl e
      | Inr pq1 \<Rightarrow>
          (case down rs pq1 0 (nat n) of
             Inl e \<Rightarrow> Inl e
           | Inr pq2 \<Rightarrow>
               (case idx pq2 (int (length pq2) - 1) of
                  Inl e \<Rightarrow> Inl e
                | Inr r \<Rightarrow> Inr (r, take (length pq2 - 1) pq2))))"

section \<open>Growing the tree\<close>

text \<open>
  The iteration orders of the map ranges of one \<open>Train\<close> call: one order per node, since
  \<open>precalcBestSplit\<close> runs at most once on a node.
\<close>

type_synonym orders = "nat \<times> bool list \<Rightarrow> int list \<Rightarrow> int list"

text \<open>\<open>n.precalcBestSplit(f)\<close> for the node \<open>n\<close> that the pointer (\<open>t\<close>, \<open>path\<close>) refers to.\<close>

definition precalcAt :: "orders \<Rightarrow> Forest \<Rightarrow> nat \<Rightarrow> bool list \<Rightarrow> error + Forest" where
  "precalcAt order f t path =
     (case derefNode (roots f) (Some (t, path)) of
        Inl e \<Rightarrow> Inl e
      | Inr n \<Rightarrow>
          (case precalcBestSplit f (order (t, path)) (inputsMem f ! t) n of
             Inl e \<Rightarrow> Inl e
           | Inr (mem', n') \<Rightarrow>
               Inr (f \<lparr> roots := (roots f)[t := putAt path n' (roots f ! t)],
                        inputsMem := (inputsMem f)[t := mem'] \<rparr>)))"

text \<open>
  One of the two blocks of \<open>convertToBranch\<close>:
  \<open>if child.misclassified > 0 { child.precalcBestSplit(f);
  if child.branchData.decideFeature != -1 { heap.Push(&f.leafQueue, child) } }\<close>.
\<close>

definition convertChild :: "orders \<Rightarrow> Forest \<Rightarrow> nat \<Rightarrow> bool list \<Rightarrow> error + Forest" where
  "convertChild order f t path =
     (case derefNode (roots f) (Some (t, path)) of
        Inl e \<Rightarrow> Inl e
      | Inr child \<Rightarrow>
          if misclassified child > 0 then
            (case precalcAt order f t path of
               Inl e \<Rightarrow> Inl e
             | Inr f1 \<Rightarrow>
                 if decideFeature (nodeAt (roots f1 ! t) path) \<noteq> - 1 then
                   (case heapPush (roots f1) (leafQueue f1) (Some (t, path)) of
                      Inl e \<Rightarrow> Inl e
                    | Inr pq \<Rightarrow> Inr (f1 \<lparr> leafQueue := pq \<rparr>))
                 else Inr f1)
          else Inr f)"

definition setLeaf :: "bool \<Rightarrow> node \<Rightarrow> node" where
  "setLeaf v n =
     (case n of
        NilNode \<Rightarrow> NilNode
      | Node s l c m df dc lo hi lf r \<Rightarrow> Node s l c m df dc lo hi v r)"

definition convertToBranch :: "orders \<Rightarrow> Forest \<Rightarrow> nat \<Rightarrow> bool list \<Rightarrow> error + Forest" where
  "convertToBranch order f t path =
     (case derefNode (roots f) (Some (t, path)) of
        Inl e \<Rightarrow> Inl e
      | Inr n \<Rightarrow>
          (let f0 = f \<lparr> roots := (roots f)[t := putAt path (setLeaf False n) (roots f ! t)] \<rparr> in
           case convertChild order f0 t (path @ [False]) of
             Inl e \<Rightarrow> Inl e
           | Inr f1 \<Rightarrow> convertChild order f1 t (path @ [True])))"

text \<open>
  The body of the loop \<open>for len(f.leafQueue) > 0 { ... }\<close> of \<open>Train\<close>: the new state,
  and whether the loop goes on (\<open>False\<close> is one of the two \<open>break\<close>s).
\<close>

definition growBody :: "orders \<Rightarrow> Forest \<Rightarrow> error + (bool \<times> Forest)" where
  "growBody order f =
     (case heapPop (roots f) (leafQueue f) of
        Inl e \<Rightarrow> Inl e
      | Inr (nextLeaf, pq) \<Rightarrow>
          (case nextLeaf of
             None \<Rightarrow> Inl NilDereference
           | Some ref \<Rightarrow>
               (case derefNode (roots f) (Some ref) of
                  Inl e \<Rightarrow> Inl e
                | Inr n \<Rightarrow>
                    if decideFeature n = - 1 then Inr (False, f \<lparr> leafQueue := pq \<rparr>)
                    else if misclassified n < minMisclassified f then
                      Inr (False, f \<lparr> leafQueue := pq \<rparr>)
                    else
                      (case convertToBranch order (f \<lparr> leafQueue := pq \<rparr>)
                              (fst ref) (snd ref) of
                         Inl e \<Rightarrow> Inl e
                       | Inr f2 \<Rightarrow> Inr (True, f2)))))"

text \<open>
  The loop. Nothing in the source bounds its iterations, so it is a partial function:
  \<open>None\<close> is a loop that never ends.
\<close>

partial_function (option) grow :: "orders \<Rightarrow> Forest \<Rightarrow> (error + Forest) option" where
  "grow order f =
     (if length (leafQueue f) > 0 then
        (case growBody order f of
           Inl e \<Rightarrow> Some (Inl e)
         | Inr (continue, f') \<Rightarrow> if continue then grow order f' else Some (Inr f'))
      else Some (Inr f))"

declare grow.simps [code]

text \<open>
  The loop \<open>for i := 0; i < f.treeCount; i++\<close> of \<open>Train\<close> that creates the roots, fills
  their inputs with \<open>0, ..., trainFrameCount - 1\<close> and precomputes their best split.
\<close>

fun initRoots :: "orders \<Rightarrow> Forest \<Rightarrow> bool \<Rightarrow> int \<Rightarrow> nat list \<Rightarrow> error + Forest" where
  "initRoots order f moreTrue mis [] = Inr f"
| "initRoots order f moreTrue mis (i # is) =
     (if trainFrameCount f < 0 then Inl NegativeLength
      else if \<not> i < length (roots f) then Inl IndexOutOfRange
      else if \<not> i < length (leafQueue f) then Inl IndexOutOfRange
      else
        (case precalcAt order
                (f \<lparr> roots := (roots f)[i :=
                        Node 0 (nat (trainFrameCount f)) moreTrue mis
                          (- 1) (- 1) NilNode NilNode True (int i)],
                     leafQueue := (leafQueue f)[i := Some (i, [])],
                     inputsMem := (inputsMem f)[i := map int [0 ..< nat (trainFrameCount f)]] \<rparr>)
                i [] of
           Inl e \<Rightarrow> Inl e
         | Inr f1 \<Rightarrow> initRoots order f1 moreTrue mis is))"

text \<open>
  The labels \<open>expected[i + f.frameSize - 1]\<close> of the frames \<open>i = 0, ..., frameCount - 1\<close>,
  as the first loop of \<open>Train\<close> reads them.
\<close>

definition frameLabels :: "int \<Rightarrow> int \<Rightarrow> int list \<Rightarrow> error + int list" where
  "frameLabels frameSize' frameCount expected =
     mapE (\<lambda>i. idx expected (int i + frameSize' - 1)) [0 ..< nat frameCount]"

text \<open>
  \<open>Train\<close> up to and including \<open>heap.Init\<close>: the state in which the growth loop starts.
\<close>

definition trainInit :: "orders \<Rightarrow> Forest \<Rightarrow> sample list \<Rightarrow> int list \<Rightarrow> error + Forest" where
  "trainInit order f samples expected =
     (let f0 = f \<lparr> trainSamples := samples, trainExpected := expected,
                   trainFrameCount := int (length samples) - frameSize f + 1 \<rparr> in
      case frameLabels (frameSize f0) (trainFrameCount f0) expected of
        Inl e \<Rightarrow> Inl e
      | Inr labels \<Rightarrow>
          (let trueCount = int (length (filter (\<lambda>l. l = 1) labels));
               moreTrue = (trueCount > trainFrameCount f0 - trueCount);
               mis = (if moreTrue then trainFrameCount f0 - trueCount else trueCount)
           in case initRoots order f0 moreTrue mis [0 ..< nat (treeCount f0)] of
                Inl e \<Rightarrow> Inl e
              | Inr f1 \<Rightarrow>
                  (case heapInit (roots f1) (leafQueue f1) of
                     Inl e \<Rightarrow> Inl e
                   | Inr pq \<Rightarrow> Inr (f1 \<lparr> leafQueue := pq \<rparr>))))"

definition Train :: "orders \<Rightarrow> Forest \<Rightarrow> sample list \<Rightarrow> int list \<Rightarrow> (error + Forest) option" where
  "Train order f samples expected =
     (case trainInit order f samples expected of
        Inl e \<Rightarrow> Some (Inl e)
      | Inr f1 \<Rightarrow> grow order f1)"

text \<open>
  The state of the growth loop after at most \<open>k\<close> iterations (its final state, if it
  ends earlier): the points of a training run at which a queue and a tree can be observed.
\<close>

fun growSteps :: "orders \<Rightarrow> nat \<Rightarrow> Forest \<Rightarrow> error + Forest" where
  "growSteps order 0 f = Inr f"
| "growSteps order (Suc k) f =
     (if length (leafQueue f) > 0 then
        (case growBody order f of
           Inl e \<Rightarrow> Inl e
         | Inr (continue, f') \<Rightarrow> if continue then growSteps order k f' else Inr f')
      else Inr f)"

section \<open>Introspection\<close>

fun totalErrors :: "node \<Rightarrow> error + int" where
  "totalErrors NilNode = Inl NilDereference"
| "totalErrors (Node s l c m df dc lo hi lf r) =
     (if lf then Inr m
      else
        (case totalErrors lo of
           Inl e \<Rightarrow> Inl e
         | Inr a \<Rightarrow> (case totalErrors hi of Inl e \<Rightarrow> Inl e | Inr b \<Rightarrow> Inr (a + b))))"

fun sumErrors :: "node list \<Rightarrow> error + int" where
  "sumErrors [] = Inr 0"
| "sumErrors (n # ns) =
     (case totalErrors n of
        Inl e \<Rightarrow> Inl e
      | Inr a \<Rightarrow> (case sumErrors ns of Inl e \<Rightarrow> Inl e | Inr b \<Rightarrow> Inr (a + b)))"

text \<open>
  \<open>AverageErrors\<close>: \<open>float64(errors) / float64(len(f.roots))\<close>, as the exact quotient (both
  conversions are exact below \<open>2^53\<close>).
\<close>

definition AverageErrors :: "Forest \<Rightarrow> error + real" where
  "AverageErrors f =
     (case sumErrors (roots f) of
        Inl e \<Rightarrow> Inl e
      | Inr errors \<Rightarrow> Inr (real_of_int errors / real (length (roots f))))"

section \<open>Notions used in the statements and proofs\<close>

text \<open>
  The parameters and data of a forest during a training call: a frame size of at least
  1, the frame count that \<open>Train\<close> computes, labels for every frame, and the feature set
  that \<open>NewForest\<close> allows.
\<close>

definition trainCtx :: "Forest \<Rightarrow> bool" where
  "trainCtx f \<longleftrightarrow>
     1 \<le> frameSize f
     \<and> (0 < trainFrameCount f \<longrightarrow> length (trainSamples f) \<le> length (trainExpected f))
     \<and> trainFrameCount f = int (length (trainSamples f)) - frameSize f + 1
     \<and> 0 \<le> trainFrameCount f
     \<and> allowed f = [map int [0 ..< nat (2 * frameSize f - 1)]]"

text \<open>A frame index of the training data.\<close>

definition frameOK :: "Forest \<Rightarrow> int \<Rightarrow> bool" where
  "frameOK f fr \<longleftrightarrow> 0 \<le> fr \<and> fr < trainFrameCount f"

text \<open>A feature index that \<open>scoreForFrameAndFeature\<close> supports.\<close>

definition featureOK :: "Forest \<Rightarrow> int \<Rightarrow> bool" where
  "featureOK f ft \<longleftrightarrow> 0 \<le> ft \<and> ft < 2 * frameSize f - 1"

text \<open>The score of a frame, where \<open>scoreForFrameAndFeature\<close> returns one.\<close>

definition scoreOf :: "Forest \<Rightarrow> int \<Rightarrow> int \<Rightarrow> int" where
  "scoreOf f feature frame =
     (case scoreForFrameAndFeature f frame feature of Inl e \<Rightarrow> 0 | Inr v \<Rightarrow> v)"

text \<open>The label of a frame: \<open>f.trainExpected[frame + f.frameSize - 1]\<close>.\<close>

definition labelOf :: "Forest \<Rightarrow> int \<Rightarrow> int" where
  "labelOf f frame = trainExpected f ! nat (frame + frameSize f - 1)"

text \<open>
  The candidate that the sweep of \<open>splitReduction\<close> builds at the pair \<open>x\<close>, after it has
  moved the pairs \<open>pre\<close> from above to below, starting from the counts \<open>tB, tA, fB, fA\<close>.
\<close>

definition candidate ::
    "(int \<Rightarrow> int) \<Rightarrow> int \<Rightarrow> (int \<times> int) list \<Rightarrow> int \<times> int \<Rightarrow> int \<Rightarrow> int \<Rightarrow> int \<Rightarrow> int \<Rightarrow> splitDetails" where
  "candidate lab feature pre x tB tA fB fA =
     (let t = int (length (filter (\<lambda>p. lab (snd p) = 1) pre));
          e = int (length (filter (\<lambda>p. lab (snd p) \<noteq> 1) pre))
      in if (fB + e) + (tA - t) < (tB + t) + (fA - e) then
           \<lparr> splitValue = fst x, splitFeature = feature, trueBelow = True,
             misses = (fB + e) + (tA - t), missesBelow = fB + e, missesAbove = tA - t \<rparr>
         else
           \<lparr> splitValue = fst x, splitFeature = feature, trueBelow = False,
             misses = (tB + t) + (fA - e), missesBelow = tB + t, missesAbove = fA - e \<rparr>)"

text \<open>
  The initial \<open>bestSplit\<close> of \<open>splitReduction\<close> and \<open>precalcBestSplit\<close>: no feature, and the
  count to beat.
\<close>

definition noSplit :: "int \<Rightarrow> splitDetails" where
  "noSplit m = \<lparr> splitValue = - 1, splitFeature = - 1, trueBelow = False,
                 misses = m, missesBelow = - 1, missesAbove = - 1 \<rparr>"

text \<open>The number of frames labelled 1 that \<open>splitReduction\<close> derives from the stored count.\<close>

definition storedTrue :: "int list \<Rightarrow> node \<Rightarrow> int" where
  "storedTrue inputs n =
     (if classifyAsTrue n then int (length inputs) - misclassified n else misclassified n)"

text \<open>The (score, frame) pairs of the inputs, as \<open>sort.Sort(dsii)\<close> leaves them.\<close>

definition sortedPairs :: "Forest \<Rightarrow> int \<Rightarrow> int list \<Rightarrow> (int \<times> int) list" where
  "sortedPairs f feature inputs = sort (zip (map (scoreOf f feature) inputs) inputs)"

text \<open>The frames that the partition of \<open>presplitOn\<close> moves to the front.\<close>

definition lowSide :: "Forest \<Rightarrow> splitDetails \<Rightarrow> int \<Rightarrow> bool" where
  "lowSide f split frame \<longleftrightarrow>
     ((scoreOf f (splitFeature split) frame < splitValue split) = trueBelow split)"

text \<open>A leaf as \<open>Train\<close> and \<open>presplitOn\<close> create it: no candidate, no children.\<close>

definition childLeaf :: "nat \<Rightarrow> nat \<Rightarrow> bool \<Rightarrow> int \<Rightarrow> int \<Rightarrow> node" where
  "childLeaf s l c m r = Node s l c m (- 1) (- 1) NilNode NilNode True r"

text \<open>The rank of a node: window length, classification, stored count.\<close>

definition rankRel :: "((nat \<times> nat \<times> nat) \<times> (nat \<times> nat \<times> nat)) set" where
  "rankRel = less_than <*lex*> less_than <*lex*> less_than"

definition rank :: "node \<Rightarrow> nat \<times> nat \<times> nat" where
  "rank n = (inLen n, if classifyAsTrue n then 1 else 0, nat (misclassified n))"

text \<open>The allowed features of the tree: \<open>0, ..., 2 * frameSize - 2\<close>.\<close>

definition features :: "Forest \<Rightarrow> int list" where
  "features f = map int [0 ..< nat (2 * frameSize f - 1)]"

text \<open>
  The total count \<open>misses\<close> of the candidate that \<open>splitReduction\<close> returns for a feature
  (the node's stored count, should \<open>splitReduction\<close> fail).
\<close>

definition featureMisses :: "Forest \<Rightarrow> int list \<Rightarrow> node \<Rightarrow> int \<Rightarrow> int" where
  "featureMisses f inputs n k =
     (case splitReduction f inputs n k of Inl e \<Rightarrow> misclassified n | Inr c \<Rightarrow> misses c)"

text \<open>A node without children: no candidate split has been recorded for it.\<close>

definition isFresh :: "node \<Rightarrow> bool" where
  "isFresh n \<longleftrightarrow> n \<noteq> NilNode \<and> lowerChild n = NilNode \<and> highEqChild n = NilNode"

text \<open>
  A tree over the window of length \<open>l\<close> at \<open>s\<close>, as training builds it: a node either
  has no children and no candidate, or it has both children, on adjacent windows that
  make up its own, with stored counts that passed the bar; the children of a leaf have
  no children of their own.
\<close>

fun wfNode :: "nat \<Rightarrow> nat \<Rightarrow> node \<Rightarrow> bool" where
  "wfNode s l NilNode = False"
| "wfNode s l (Node s' l' c m df dc lo hi lf r) =
     (s' = s \<and> l' = l \<and> r = 0 \<and>
      (if lo = NilNode \<and> hi = NilNode then df = - 1 \<and> dc = - 1 \<and> lf
       else lo \<noteq> NilNode \<and> hi \<noteq> NilNode \<and> df \<noteq> - 1 \<and> 0 \<le> m \<and> inLen lo \<le> l
            \<and> wfNode s (inLen lo) lo \<and> wfNode (s + inLen lo) (l - inLen lo) hi
            \<and> misclassified lo + misclassified hi < upperBar m
            \<and> (0 < misclassified lo \<longrightarrow> (rank lo, (l, if c then 1 else 0, nat m)) \<in> rankRel)
            \<and> (0 < misclassified hi \<longrightarrow> (rank hi, (l, if c then 1 else 0, nat m)) \<in> rankRel)
            \<and> (lf \<longrightarrow> isFresh lo \<and> isFresh hi)))"

text \<open>Every queued pointer can be compared.\<close>

definition cmpOK :: "node list \<Rightarrow> nodeRef list \<Rightarrow> bool" where
  "cmpOK rs pq \<longleftrightarrow> (\<forall>r \<in> set pq. \<exists>v. fixOf rs r = Inr v)"

text \<open>Two forest states with the same parameters and training data.\<close>

definition static :: "Forest \<Rightarrow> Forest \<Rightarrow> bool" where
  "static f f' \<longleftrightarrow>
     frameSize f' = frameSize f \<and> treeCount f' = treeCount f
     \<and> minMisclassified f' = minMisclassified f \<and> allowed f' = allowed f
     \<and> trainFrameCount f' = trainFrameCount f \<and> trainSamples f' = trainSamples f
     \<and> trainExpected f' = trainExpected f"

text \<open>A backing array of the frame indices: a permutation of \<open>0, ..., trainFrameCount - 1\<close>.\<close>

definition memOK :: "Forest \<Rightarrow> int list \<Rightarrow> bool" where
  "memOK f mem \<longleftrightarrow>
     length mem = nat (trainFrameCount f)
     \<and> mset mem = mset (map int [0 ..< nat (trainFrameCount f)])"

text \<open>A forest in training: one well-formed tree over one backing array.\<close>

definition treeState :: "Forest \<Rightarrow> node \<Rightarrow> int list \<Rightarrow> bool" where
  "treeState f t mem \<longleftrightarrow>
     trainCtx f \<and> roots f = [t] \<and> inputsMem f = [mem] \<and> memOK f mem
     \<and> wfNode 0 (nat (trainFrameCount f)) t"

text \<open>
  One order per node in which a \<open>range\<close> over the map of allowed features yields the
  keys: Go fixes no order, but every key comes exactly once, so each order is a
  permutation of the keys.
\<close>

definition ordersOK :: "orders \<Rightarrow> bool" where
  "ordersOK order \<longleftrightarrow> (\<forall>h ks. mset (order h ks) = mset ks)"

text \<open>A pointer as the queue holds it: to a leaf with a recorded candidate.\<close>

definition queued :: "node \<Rightarrow> nodeRef \<Rightarrow> bool" where
  "queued t r \<longleftrightarrow>
     (\<exists>p. r = Some (0, p) \<and> nodeAt t p \<noteq> NilNode \<and> isLeaf (nodeAt t p)
          \<and> \<not> isFresh (nodeAt t p))"

text \<open>The rank of the node that a queued pointer refers to.\<close>

definition refRank :: "node \<Rightarrow> nodeRef \<Rightarrow> nat \<times> nat \<times> nat" where
  "refRank t r = (case r of None \<Rightarrow> (0, 0, 0) | Some (i, p) \<Rightarrow> rank (nodeAt t p))"

text \<open>The invariant of the growth loop after its first iteration.\<close>

definition InvQ :: "Forest \<Rightarrow> bool" where
  "InvQ f \<longleftrightarrow>
     (\<exists>t mem. treeState f t mem \<and> distinct (leafQueue f)
        \<and> (\<forall>r \<in> set (leafQueue f). queued t r))"

text \<open>
  The invariant of the growth loop: before the first iteration the queue may also hold
  a root without candidate, alone.
\<close>

definition Inv :: "Forest \<Rightarrow> bool" where
  "Inv f \<longleftrightarrow>
     InvQ f \<or> (\<exists>t mem. treeState f t mem \<and> leafQueue f = [Some (0, [])] \<and> isFresh t)"

text \<open>The measure of the growth loop: the ranks of the queued nodes.\<close>

definition queueRanks :: "Forest \<Rightarrow> (nat \<times> nat \<times> nat) multiset" where
  "queueRanks f = image_mset (refRank (hd (roots f))) (mset (leafQueue f))"

text \<open>The root keeps its stored count and its classification.\<close>

definition rootKept :: "Forest \<Rightarrow> Forest \<Rightarrow> bool" where
  "rootKept f f' \<longleftrightarrow>
     misclassified (hd (roots f')) = misclassified (hd (roots f))
     \<and> classifyAsTrue (hd (roots f')) = classifyAsTrue (hd (roots f))"

text \<open>A leaf on the frontier that holds no candidate: never queued, never evaluated again.\<close>

definition settled :: "node \<Rightarrow> bool list \<Rightarrow> bool" where
  "settled t q \<longleftrightarrow> q \<noteq> [] \<and> isFresh (nodeAt t q) \<and> nodeAt t (butlast q) \<noteq> NilNode
                    \<and> \<not> isLeaf (nodeAt t (butlast q))"

text \<open>The state of \<open>Train\<close> when the root has been created and before it is evaluated.\<close>

definition rootState :: "Forest \<Rightarrow> sample list \<Rightarrow> int list \<Rightarrow> node \<Rightarrow> Forest" where
  "rootState f samples expected rootNode =
     f \<lparr> trainSamples := samples, trainExpected := expected,
         trainFrameCount := int (length samples) - frameSize f + 1,
         roots := [rootNode], leafQueue := [Some (0, [])],
         inputsMem := [map int [0 ..< nat (int (length samples) - frameSize f + 1)]] \<rparr>"

text \<open>The growth loop, in state \<open>s\<close>, ends with \<open>f'\<close>.\<close>

definition exitsAt :: "orders \<Rightarrow> Forest \<Rightarrow> Forest \<Rightarrow> bool" where
  "exitsAt order s f' \<longleftrightarrow>
     (leafQueue s = [] \<and> f' = s) \<or> (leafQueue s \<noteq> [] \<and> growBody order s = Inr (False, f'))"

text \<open>A training call: forest construction, then \<open>Train\<close>.\<close>

definition trainCall ::
    "orders \<Rightarrow> int \<Rightarrow> int \<Rightarrow> int \<Rightarrow> sample list \<Rightarrow> int list \<Rightarrow> (error + Forest) option" where
  "trainCall order frameSize' treeCount' minMisclassified' samples labels =
     (case NewForest frameSize' treeCount' minMisclassified' of
        Inl e \<Rightarrow> Some (Inl e)
      | Inr f \<Rightarrow> Train order f samples labels)"

text \<open>The outcomes of a call: an error (a panic), or a forest.\<close>

definition failsWithError :: "(error + Forest) option \<Rightarrow> bool" where
  "failsWithError r = (case r of Some (Inl e) \<Rightarrow> True | _ \<Rightarrow> False)"

definition completes :: "(error + Forest) option \<Rightarrow> bool" where
  "completes r = (case r of Some (Inr f) \<Rightarrow> True | _ \<Rightarrow> False)"

text \<open>The frame arrays of the leaves below a node, found as \<open>totalErrors\<close> finds the leaves.\<close>

fun leafArrays :: "int list \<Rightarrow> node \<Rightarrow> int list list" where
  "leafArrays mem NilNode = []"
| "leafArrays mem (Node s l c m df dc lo hi lf r) =
     (if lf then [nodeInputs mem (Node s l c m df dc lo hi lf r)]
      else leafArrays mem lo @ leafArrays mem hi)"

text \<open>
  Every node below \<open>n\<close> that has children (a split was recorded for it) has exactly its
  own frames in the arrays of its two children.
\<close>

fun splitsPartition :: "int list \<Rightarrow> node \<Rightarrow> bool" where
  "splitsPartition mem NilNode = True"
| "splitsPartition mem (Node s l c m df dc lo hi lf r) =
     ((lo \<noteq> NilNode \<or> hi \<noteq> NilNode \<longrightarrow>
         mset (nodeInputs mem lo) + mset (nodeInputs mem hi)
           = mset (nodeInputs mem (Node s l c m df dc lo hi lf r)))
      \<and> splitsPartition mem lo \<and> splitsPartition mem hi)"

text \<open>
  Every node below \<open>n\<close> that was split (turned into a branch) stores at least the sum of
  the counts its children store.
\<close>

fun splitsReduce :: "node \<Rightarrow> bool" where
  "splitsReduce NilNode = True"
| "splitsReduce (Node s l c m df dc lo hi lf r) =
     ((\<not> lf \<longrightarrow> misclassified lo + misclassified hi \<le> m)
      \<and> splitsReduce lo \<and> splitsReduce hi)"

text \<open>
  The number of frames in a node's array whose label (at offset \<open>frame + frameSize - 1\<close>)
  disagrees with the node's classification.
\<close>

definition actualMisclassified :: "Forest \<Rightarrow> int list \<Rightarrow> node \<Rightarrow> int" where
  "actualMisclassified f mem n =
     int (length (filter
       (\<lambda>frame. (trainExpected f ! nat (frame + frameSize f - 1) = 1) \<noteq> classifyAsTrue n)
       (nodeInputs mem n)))"

text \<open>One possible run: every map range yields the keys in ascending order.\<close>

definition ascending :: orders where
  "ascending = (\<lambda>h ks. ks)"

text \<open>
  The least of the total counts that \<open>splitReduction\<close> returns for the allowed features of
  a node.
\<close>

definition minMisses :: "Forest \<Rightarrow> int list \<Rightarrow> node \<Rightarrow> int" where
  "minMisses f inputs n = Min (featureMisses f inputs n ` set (features f))"


section \<open>Results of the split search\<close>

lemma idx_in_range: "0 \<le> i \<Longrightarrow> i < int (length xs) \<Longrightarrow> idx xs i = Inr (xs ! nat i)"
  by (simp add: idx_def)

lemma mapE_total: "(\<And>x. x \<in> set xs \<Longrightarrow> g x = Inr (h x)) \<Longrightarrow> mapE g xs = Inr (map h xs)"
  by (induction xs) simp_all

lemma score_total:
  assumes "trainCtx f" and "frameOK f fr" and "featureOK f ft"
  shows "scoreForFrameAndFeature f fr ft = Inr (scoreOf f ft fr)"
proof -
  from assms have b: "1 \<le> frameSize f" "0 \<le> fr" "0 \<le> ft" "ft < 2 * frameSize f - 1"
    "fr + frameSize f \<le> int (length (trainSamples f))"
    by (simp_all add: trainCtx_def frameOK_def featureOK_def)
  have "\<exists>v. scoreForFrameAndFeature f fr ft = Inr v"
  proof (cases "ft < frameSize f")
    case True
    with b have "idx (trainSamples f) (fr + ft) = Inr (trainSamples f ! nat (fr + ft))"
      by (intro idx_in_range) simp_all
    with True show ?thesis by (simp add: scoreForFrameAndFeature_def)
  next
    case False
    let ?first = "fr + (ft - frameSize f)"
    from False b have "0 \<le> ?first" "?first + 1 < int (length (trainSamples f))" by simp_all
    then have "idx (trainSamples f) (?first + 1) = Inr (trainSamples f ! nat (?first + 1))"
      "idx (trainSamples f) ?first = Inr (trainSamples f ! nat ?first)"
      by (simp_all add: idx_in_range)
    with False b show ?thesis by (simp add: scoreForFrameAndFeature_def Let_def)
  qed
  then show ?thesis by (auto simp: scoreOf_def)
qed

lemma label_total:
  assumes "trainCtx f" and "frameOK f fr"
  shows "idx (trainExpected f) (fr + frameSize f - 1) = Inr (labelOf f fr)"
proof -
  from assms have "0 < trainFrameCount f" by (simp add: frameOK_def)
  with assms have "0 \<le> fr + frameSize f - 1"
    "fr + frameSize f - 1 < int (length (trainExpected f))"
    by (auto simp: trainCtx_def frameOK_def)
  then show ?thesis by (simp add: labelOf_def idx_in_range)
qed

lemma candidate_Cons:
  "candidate lab feature (y # pre) x tB tA fB fA =
     (if lab (snd y) = 1 then candidate lab feature pre x (tB + 1) (tA - 1) fB fA
      else candidate lab feature pre x tB tA (fB + 1) (fA - 1))"
  by (simp add: candidate_def Let_def algebra_simps)

lemma sweep_result:
  assumes "\<And>p. p \<in> set ps \<Longrightarrow> idx (trainExpected f) (snd p + frameSize f - 1) = Inr (lab (snd p))"
  shows "\<exists>b. sweep f feature lst ps best tB tA fB fA = Inr b
           \<and> (b = best \<or> (misses b < misses best
                \<and> (\<exists>pre x post. ps = pre @ x # post \<and> b = candidate lab feature pre x tB tA fB fA)))"
  using assms
proof (induction ps arbitrary: lst best tB tA fB fA)
  case Nil
  show ?case by simp
next
  case (Cons y rest)
  obtain s fr where y: "y = (s, fr)" by (cases y)
  define c where "c = candidate lab feature [] y tB tA fB fA"
  define best1 where "best1 = (if misses c < misses best then c else best)"
  have l: "idx (trainExpected f) (fr + frameSize f - 1) = Inr (lab fr)"
    using Cons.prems [of y] y by simp
  have rest: "\<And>p. p \<in> set rest \<Longrightarrow>
      idx (trainExpected f) (snd p + frameSize f - 1) = Inr (lab (snd p))"
    using Cons.prems by simp
  have step: "sweep f feature lst (y # rest) best tB tA fB fA =
      (if lab fr = 1 then sweep f feature (Some s) rest best1 (tB + 1) (tA - 1) fB fA
       else sweep f feature (Some s) rest best1 tB tA (fB + 1) (fA - 1))"
    by (cases lst) (simp_all add: y l best1_def c_def candidate_def Let_def)
  have b1: "best1 = best \<or> (misses best1 < misses best \<and> best1 = c)"
    by (simp add: best1_def)
  show ?case
  proof (cases "lab fr = 1")
    case True
    from Cons.IH [OF rest, of "Some s" best1 "tB + 1" "tA - 1" fB fA]
    obtain b where b: "sweep f feature (Some s) rest best1 (tB + 1) (tA - 1) fB fA = Inr b"
      and d: "b = best1 \<or> (misses b < misses best1
                \<and> (\<exists>pre x post. rest = pre @ x # post
                      \<and> b = candidate lab feature pre x (tB + 1) (tA - 1) fB fA))"
      by blast
    from d show ?thesis
    proof
      assume "b = best1"
      with b1 have "b = best \<or> (misses b < misses best
          \<and> y # rest = [] @ y # rest \<and> b = candidate lab feature [] y tB tA fB fA)"
        by (auto simp: c_def)
      with b step True show ?thesis by (metis (no_types, lifting))
    next
      assume "misses b < misses best1
                \<and> (\<exists>pre x post. rest = pre @ x # post
                      \<and> b = candidate lab feature pre x (tB + 1) (tA - 1) fB fA)"
      then obtain pre x post where m: "misses b < misses best1"
        and r: "rest = pre @ x # post"
        and e: "b = candidate lab feature pre x (tB + 1) (tA - 1) fB fA" by blast
      from e True y have "b = candidate lab feature (y # pre) x tB tA fB fA"
        by (simp add: candidate_Cons)
      moreover from r have "y # rest = (y # pre) @ x # post" by simp
      moreover from m b1 have "misses b < misses best" by auto
      ultimately show ?thesis using b step True by (metis (no_types, lifting))
    qed
  next
    case False
    from Cons.IH [OF rest, of "Some s" best1 tB tA "fB + 1" "fA - 1"]
    obtain b where b: "sweep f feature (Some s) rest best1 tB tA (fB + 1) (fA - 1) = Inr b"
      and d: "b = best1 \<or> (misses b < misses best1
                \<and> (\<exists>pre x post. rest = pre @ x # post
                      \<and> b = candidate lab feature pre x tB tA (fB + 1) (fA - 1)))"
      by blast
    from d show ?thesis
    proof
      assume "b = best1"
      with b1 have "b = best \<or> (misses b < misses best
          \<and> y # rest = [] @ y # rest \<and> b = candidate lab feature [] y tB tA fB fA)"
        by (auto simp: c_def)
      with b step False show ?thesis by (metis (no_types, lifting))
    next
      assume "misses b < misses best1
                \<and> (\<exists>pre x post. rest = pre @ x # post
                      \<and> b = candidate lab feature pre x tB tA (fB + 1) (fA - 1))"
      then obtain pre x post where m: "misses b < misses best1"
        and r: "rest = pre @ x # post"
        and e: "b = candidate lab feature pre x tB tA (fB + 1) (fA - 1)" by blast
      from e False y have "b = candidate lab feature (y # pre) x tB tA fB fA"
        by (simp add: candidate_Cons)
      moreover from r have "y # rest = (y # pre) @ x # post" by simp
      moreover from m b1 have "misses b < misses best" by auto
      ultimately show ?thesis using b step False by (metis (no_types, lifting))
    qed
  qed
qed

lemma sortedPairs_set:
  "p \<in> set (sortedPairs f feature inputs) \<Longrightarrow> snd p \<in> set inputs \<and> fst p = scoreOf f feature (snd p)"
  by (auto simp: sortedPairs_def zip_map1 in_set_zip)

lemma sortedPairs_length [simp]: "length (sortedPairs f feature inputs) = length inputs"
  by (simp add: sortedPairs_def)

lemma splitReduction_result:
  assumes ctx: "trainCtx f" and fr: "\<And>x. x \<in> set inputs \<Longrightarrow> frameOK f x" and ft: "featureOK f feature"
  shows "\<exists>c. splitReduction f inputs n feature = Inr c
           \<and> (c = noSplit (misclassified n)
               \<or> (misses c < misclassified n
                   \<and> (\<exists>pre x post. sortedPairs f feature inputs = pre @ x # post
                        \<and> c = candidate (labelOf f) feature pre x
                              0 (storedTrue inputs n) 0 (int (length inputs) - storedTrue inputs n))))"
proof -
  have sc: "mapE (\<lambda>frame. scoreForFrameAndFeature f frame feature) inputs
      = Inr (map (scoreOf f feature) inputs)"
    by (rule mapE_total) (simp add: score_total [OF ctx fr ft])
  have lb: "idx (trainExpected f) (snd p + frameSize f - 1) = Inr (labelOf f (snd p))"
    if "p \<in> set (sortedPairs f feature inputs)" for p
    using that sortedPairs_set [of p] label_total [OF ctx] fr by blast
  have tmp: "mapE (\<lambda>(s, fr). idx (trainExpected f) (fr + frameSize f - 1)) (sortedPairs f feature inputs)
      = Inr (map (\<lambda>p. labelOf f (snd p)) (sortedPairs f feature inputs))"
    by (rule mapE_total) (auto simp: lb split: prod.splits dest: lb)
  have eq: "splitReduction f inputs n feature =
      sweep f feature None (sortedPairs f feature inputs) (noSplit (misclassified n))
        0 (storedTrue inputs n) 0 (int (length inputs) - storedTrue inputs n)"
    unfolding splitReduction_def Let_def sc sum.case sortedPairs_def [symmetric] tmp
    by (simp add: noSplit_def storedTrue_def)
  from sweep_result [of "sortedPairs f feature inputs" f "labelOf f" feature None
      "noSplit (misclassified n)" 0 "storedTrue inputs n" 0 "int (length inputs) - storedTrue inputs n",
      OF lb]
  show ?thesis unfolding eq by (simp add: noSplit_def)
qed

lemma bestOver_result:
  assumes ctx: "trainCtx f" and fr: "\<And>x. x \<in> set inputs \<Longrightarrow> frameOK f x"
    and ft: "\<And>k. k \<in> set keys \<Longrightarrow> featureOK f k"
  shows "\<exists>b. bestOver f inputs n keys best = Inr b
           \<and> misses b \<le> misses best
           \<and> (\<forall>k \<in> set keys. \<forall>c. splitReduction f inputs n k = Inr c \<longrightarrow> misses b \<le> misses c)
           \<and> (b = best \<or> (misses b < misses best
                \<and> (\<exists>k \<in> set keys. splitReduction f inputs n k = Inr b)))"
  using ft
proof (induction keys arbitrary: best)
  case Nil
  show ?case by simp
next
  case (Cons k keys)
  from splitReduction_result [OF ctx fr, where feature = k and n = n] Cons.prems
  obtain c where c: "splitReduction f inputs n k = Inr c" by auto
  define best1 where "best1 = (if misses c < misses best then c else best)"
  from Cons.IH [of best1] Cons.prems
  obtain b where b: "bestOver f inputs n keys best1 = Inr b"
    and le: "misses b \<le> misses best1"
    and mn: "\<forall>k \<in> set keys. \<forall>c. splitReduction f inputs n k = Inr c \<longrightarrow> misses b \<le> misses c"
    and d: "b = best1 \<or> (misses b < misses best1
                \<and> (\<exists>k \<in> set keys. splitReduction f inputs n k = Inr b))"
    by auto
  have "bestOver f inputs n (k # keys) best = Inr b"
    using b by (simp add: c best1_def)
  moreover from le have "misses b \<le> misses best" by (auto simp: best1_def split: if_splits)
  moreover from le have "misses b \<le> misses c" by (auto simp: best1_def split: if_splits)
  moreover from d have "b = best \<or> (misses b < misses best
                \<and> (\<exists>k' \<in> set (k # keys). splitReduction f inputs n k' = Inr b))"
    using c by (auto simp: best1_def split: if_splits)
  ultimately show ?case using mn c by auto
qed


section \<open>The partition\<close>

lemma scanLo_spec:
  assumes "\<And>x. x \<in> set xs \<Longrightarrow> p x = Inr (q x)" and "0 \<le> lo" and "hi \<le> int (length xs)" and "lo \<le> hi"
  shows "\<exists>r. scanLo p xs lo hi = Inr r \<and> lo \<le> r \<and> r \<le> hi
           \<and> (\<forall>i. lo \<le> i \<and> i < r \<longrightarrow> q (xs ! nat i))
           \<and> (r < hi \<longrightarrow> \<not> q (xs ! nat r))"
  using assms
proof (induction p xs lo hi rule: scanLo.induct)
  case (1 p xs lo hi)
  note unf = scanLo.simps [of p xs lo hi]
  show ?case
  proof (cases "lo < hi")
    case False
    with unf have "scanLo p xs lo hi = Inr lo" by simp
    with False "1.prems" show ?thesis by auto
  next
    case True
    with "1.prems" have x: "idx xs lo = Inr (xs ! nat lo)" and mem: "xs ! nat lo \<in> set xs"
      by (simp_all add: idx_in_range)
    from "1.prems"(1) [OF mem] have px: "p (xs ! nat lo) = Inr (q (xs ! nat lo))" .
    show ?thesis
    proof (cases "q (xs ! nat lo)")
      case False
      with unf True x px have "scanLo p xs lo hi = Inr lo" by simp
      with False True show ?thesis by auto
    next
      case q: True
      from "1.IH" [OF True x px] q "1.prems" True
      obtain r where r: "scanLo p xs (lo + 1) hi = Inr r" "lo + 1 \<le> r" "r \<le> hi"
        "\<forall>i. lo + 1 \<le> i \<and> i < r \<longrightarrow> q (xs ! nat i)" "r < hi \<longrightarrow> \<not> q (xs ! nat r)"
        by auto
      have "\<forall>i. lo \<le> i \<and> i < r \<longrightarrow> q (xs ! nat i)"
      proof (intro allI impI)
        fix i assume "lo \<le> i \<and> i < r"
        then have "i = lo \<or> (lo + 1 \<le> i \<and> i < r)" by auto
        with q r(4) show "q (xs ! nat i)" by auto
      qed
      moreover from r unf True x px q have "scanLo p xs lo hi = Inr r" by simp
      ultimately show ?thesis using r by auto
    qed
  qed
qed

lemma scanHi_spec:
  assumes "\<And>x. x \<in> set xs \<Longrightarrow> p x = Inr (q x)" and "0 \<le> lo" and "hi < int (length xs)" and "lo \<le> hi"
  shows "\<exists>r. scanHi p xs lo hi = Inr r \<and> lo \<le> r \<and> r \<le> hi
           \<and> (\<forall>i. r < i \<and> i \<le> hi \<longrightarrow> \<not> q (xs ! nat i))
           \<and> (lo < r \<longrightarrow> q (xs ! nat r))"
  using assms
proof (induction p xs lo hi rule: scanHi.induct)
  case (1 p xs lo hi)
  note unf = scanHi.simps [of p xs lo hi]
  show ?case
  proof (cases "lo < hi")
    case False
    with unf have "scanHi p xs lo hi = Inr hi" by simp
    with False "1.prems" show ?thesis by auto
  next
    case True
    with "1.prems" have x: "idx xs hi = Inr (xs ! nat hi)" and mem: "xs ! nat hi \<in> set xs"
      by (simp_all add: idx_in_range)
    from "1.prems"(1) [OF mem] have px: "p (xs ! nat hi) = Inr (q (xs ! nat hi))" .
    show ?thesis
    proof (cases "q (xs ! nat hi)")
      case q: True
      with unf True x px have "scanHi p xs lo hi = Inr hi" by simp
      with q True show ?thesis by auto
    next
      case q: False
      from "1.IH" [OF True x px] q "1.prems" True
      obtain r where r: "scanHi p xs lo (hi - 1) = Inr r" "lo \<le> r" "r \<le> hi - 1"
        "\<forall>i. r < i \<and> i \<le> hi - 1 \<longrightarrow> \<not> q (xs ! nat i)" "lo < r \<longrightarrow> q (xs ! nat r)"
        by auto
      have "\<forall>i. r < i \<and> i \<le> hi \<longrightarrow> \<not> q (xs ! nat i)"
      proof (intro allI impI)
        fix i assume "r < i \<and> i \<le> hi"
        then have "i = hi \<or> (r < i \<and> i \<le> hi - 1)" by auto
        with q r(4) show "\<not> q (xs ! nat i)" by auto
      qed
      moreover from r unf True x px q have "scanHi p xs lo hi = Inr r" by simp
      ultimately show ?thesis using r by auto
    qed
  qed
qed

lemma swapAt_spec:
  assumes "0 \<le> i" "i < int (length xs)" "0 \<le> j" "j < int (length xs)"
  shows "swapAt xs i j = Inr (xs[nat i := xs ! nat j, nat j := xs ! nat i])"
  using assms by (simp add: swapAt_def idx_in_range)

lemma mset_swap_list:
  assumes "a < length xs" "b < length xs"
  shows "mset (xs[a := xs ! b, b := xs ! a]) = mset xs"
  using assms by (simp add: mset_swap)

lemma hoare_spec:
  assumes "\<And>x. x \<in> set xs \<Longrightarrow> p x = Inr (q x)"
    and "0 \<le> lo" and "hi < int (length xs)" and "lo \<le> hi + 1"
    and "\<forall>i. 0 \<le> i \<and> i < lo \<longrightarrow> q (xs ! nat i)"
    and "\<forall>i. hi < i \<and> i < int (length xs) \<longrightarrow> \<not> q (xs ! nat i)"
  shows "\<exists>ys r. hoare p xs lo hi = Inr (ys, r) \<and> mset ys = mset xs \<and> 0 \<le> r \<and> r \<le> hi + 1
           \<and> (\<forall>i. 0 \<le> i \<and> i < r \<longrightarrow> q (ys ! nat i))
           \<and> (\<forall>i. r < i \<and> i < int (length xs) \<longrightarrow> \<not> q (ys ! nat i))"
  using assms
proof (induction p xs lo hi rule: hoare.induct)
  case (1 p xs lo hi)
  note unf = hoare.simps [of p xs lo hi]
  show ?case
  proof (cases "lo < hi")
    case False
    with "1.prems" have "lo = hi \<or> lo = hi + 1" by auto
    with False "1.prems" unf show ?thesis by auto
  next
    case True
    from scanLo_spec [of xs p q lo hi] "1.prems" True
    obtain lo1 where lo1: "scanLo p xs lo hi = Inr lo1" "lo \<le> lo1" "lo1 \<le> hi"
      "\<forall>i. lo \<le> i \<and> i < lo1 \<longrightarrow> q (xs ! nat i)" "lo1 < hi \<longrightarrow> \<not> q (xs ! nat lo1)"
      by auto
    from scanHi_spec [of xs p q lo1 hi] "1.prems" lo1
    obtain hi1 where hi1: "scanHi p xs lo1 hi = Inr hi1" "lo1 \<le> hi1" "hi1 \<le> hi"
      "\<forall>i. hi1 < i \<and> i \<le> hi \<longrightarrow> \<not> q (xs ! nat i)" "lo1 < hi1 \<longrightarrow> q (xs ! nat hi1)"
      by auto
    have below: "\<forall>i. 0 \<le> i \<and> i < lo1 \<longrightarrow> q (xs ! nat i)"
    proof (intro allI impI)
      fix i assume "0 \<le> i \<and> i < lo1"
      then have "(0 \<le> i \<and> i < lo) \<or> (lo \<le> i \<and> i < lo1)" by auto
      with "1.prems"(5) lo1(4) show "q (xs ! nat i)" by blast
    qed
    have above: "\<forall>i. hi1 < i \<and> i < int (length xs) \<longrightarrow> \<not> q (xs ! nat i)"
    proof (intro allI impI)
      fix i assume "hi1 < i \<and> i < int (length xs)"
      then have "(hi1 < i \<and> i \<le> hi) \<or> (hi < i \<and> i < int (length xs))" by auto
      with "1.prems"(6) hi1(4) show "\<not> q (xs ! nat i)" by blast
    qed
    show ?thesis
    proof (cases "lo1 = hi1")
      case eq: True
      have "\<exists>ys r. hoare p xs lo1 hi1 = Inr (ys, r) \<and> mset ys = mset xs \<and> 0 \<le> r \<and> r \<le> hi1 + 1
           \<and> (\<forall>i. 0 \<le> i \<and> i < r \<longrightarrow> q (ys ! nat i))
           \<and> (\<forall>i. r < i \<and> i < int (length xs) \<longrightarrow> \<not> q (ys ! nat i))"
        using "1.IH"(2) [OF True lo1(1) hi1(1)] eq "1.prems"(1,2,3) lo1 hi1 below above
        by simp
      with unf True lo1(1) hi1(1,3) eq show ?thesis by auto
    next
      case ne: False
      with lo1 hi1 have lt: "lo1 < hi1" by simp
      define xs1 where "xs1 = xs[nat lo1 := xs ! nat hi1, nat hi1 := xs ! nat lo1]"
      from lt "1.prems" lo1 hi1 have rng: "0 \<le> lo1" "lo1 < int (length xs)" "0 \<le> hi1" "hi1 < int (length xs)"
        by simp_all
      then have sw: "swapAt xs lo1 hi1 = Inr xs1"
        unfolding xs1_def by (rule swapAt_spec)
      from rng have ms: "mset xs1 = mset xs"
        unfolding xs1_def by (intro mset_swap_list) simp_all
      then have st: "set xs1 = set xs" by (rule mset_eq_setD)
      have len: "length xs1 = length xs" by (simp add: xs1_def)
      have tot1: "\<And>x. x \<in> set xs1 \<Longrightarrow> p x = Inr (q x)" using st "1.prems"(1) by simp
      have below1: "\<forall>i. 0 \<le> i \<and> i < lo1 \<longrightarrow> q (xs1 ! nat i)"
      proof (intro allI impI)
        fix i assume i: "0 \<le> i \<and> i < lo1"
        with lt rng have "nat i \<noteq> nat lo1" "nat i \<noteq> nat hi1" by auto
        then have "xs1 ! nat i = xs ! nat i" by (simp add: xs1_def)
        with below i show "q (xs1 ! nat i)" by simp
      qed
      have above1: "\<forall>i. hi1 < i \<and> i < int (length xs1) \<longrightarrow> \<not> q (xs1 ! nat i)"
      proof (intro allI impI)
        fix i assume i: "hi1 < i \<and> i < int (length xs1)"
        with lt rng have "nat i \<noteq> nat lo1" "nat i \<noteq> nat hi1" by auto
        then have "xs1 ! nat i = xs ! nat i" by (simp add: xs1_def)
        with above i len show "\<not> q (xs1 ! nat i)" by simp
      qed
      have "\<exists>ys r. hoare p xs1 lo1 hi1 = Inr (ys, r) \<and> mset ys = mset xs1 \<and> 0 \<le> r \<and> r \<le> hi1 + 1
           \<and> (\<forall>i. 0 \<le> i \<and> i < r \<longrightarrow> q (ys ! nat i))
           \<and> (\<forall>i. r < i \<and> i < int (length xs1) \<longrightarrow> \<not> q (ys ! nat i))"
        using "1.IH"(1) [OF True lo1(1) hi1(1) ne sw tot1] rng lt len below1 above1
        by simp
      with unf True lo1(1) hi1(1,3) ne sw ms len show ?thesis by auto
    qed
  qed
qed

lemma partition_spec:
  assumes tot: "\<And>x. x \<in> set xs \<Longrightarrow> p x = Inr (q x)"
  shows "\<exists>ys r sp. hoare p xs 0 (int (length xs) - 1) = Inr (ys, r)
           \<and> scanLo p ys r (int (length ys)) = Inr (int sp)
           \<and> mset ys = mset xs \<and> sp \<le> length xs
           \<and> take sp ys = filter q ys \<and> drop sp ys = filter (\<lambda>x. \<not> q x) ys"
proof -
  have "\<forall>i. 0 \<le> i \<and> i < (0::int) \<longrightarrow> q (xs ! nat i)"
    "\<forall>i. int (length xs) - 1 < i \<and> i < int (length xs) \<longrightarrow> \<not> q (xs ! nat i)"
    by auto
  from hoare_spec [of xs p q 0 "int (length xs) - 1", OF tot _ _ _ this]
  obtain ys r where h: "hoare p xs 0 (int (length xs) - 1) = Inr (ys, r)" "mset ys = mset xs"
    "0 \<le> r" "r \<le> int (length xs)"
    "\<forall>i. 0 \<le> i \<and> i < r \<longrightarrow> q (ys ! nat i)"
    "\<forall>i. r < i \<and> i < int (length xs) \<longrightarrow> \<not> q (ys ! nat i)"
    by auto
  from h(2) have st: "set ys = set xs" by (rule mset_eq_setD)
  from h(2) have len: "length ys = length xs" by (rule mset_eq_length)
  from scanLo_spec [of ys p q r "int (length ys)"] tot st h(3,4) len
  obtain s where s: "scanLo p ys r (int (length ys)) = Inr s" "r \<le> s" "s \<le> int (length ys)"
    "\<forall>i. r \<le> i \<and> i < s \<longrightarrow> q (ys ! nat i)" "s < int (length ys) \<longrightarrow> \<not> q (ys ! nat s)"
    by auto
  have s1: "s \<le> r + 1"
  proof (rule ccontr)
    assume "\<not> s \<le> r + 1"
    then have "r \<le> r + 1 \<and> r + 1 < s" "r < r + 1 \<and> r + 1 < int (length xs)" using s(3) len by auto
    with s(4) h(6) show False by blast
  qed
  have lowq: "q (ys ! i)" if "i < nat s" for i
  proof -
    from that have "(0 \<le> int i \<and> int i < r) \<or> (r \<le> int i \<and> int i < s)" by auto
    with h(5) s(4) have "q (ys ! nat (int i))" by blast
    then show ?thesis by simp
  qed
  have highq: "\<not> q (ys ! i)" if "nat s \<le> i" "i < length ys" for i
  proof -
    from that h(3) s(2) have "int i = s \<or> (r < int i \<and> int i < int (length xs))" using len by auto
    with h(6) s(5) that have "\<not> q (ys ! nat (int i))" by auto
    then show ?thesis by simp
  qed
  define sp where "sp = nat s"
  from h(3) s(2) have sint: "s = int sp" by (simp add: sp_def)
  from s(3) have sple: "sp \<le> length ys" by (simp add: sp_def)
  have tk: "\<forall>x \<in> set (take sp ys). q x"
    using lowq sple by (auto simp: in_set_conv_nth sp_def)
  have dr: "\<forall>x \<in> set (drop sp ys). \<not> q x"
    using highq sple by (auto simp: in_set_conv_nth sp_def)
  have "filter q ys = filter q (take sp ys) @ filter q (drop sp ys)"
    by (metis append_take_drop_id filter_append)
  with tk dr have f1: "filter q ys = take sp ys" by (simp add: filter_id_conv filter_empty_conv)
  have "filter (\<lambda>x. \<not> q x) ys = filter (\<lambda>x. \<not> q x) (take sp ys) @ filter (\<lambda>x. \<not> q x) (drop sp ys)"
    by (metis append_take_drop_id filter_append)
  with tk dr have f2: "filter (\<lambda>x. \<not> q x) ys = drop sp ys"
    by (simp add: filter_id_conv filter_empty_conv)
  from h(1) s(1) h(2) sple len f1 f2 sint show ?thesis by auto
qed


section \<open>Splitting a node\<close>

lemma staysLow_total:
  assumes "trainCtx f" and "frameOK f x" and "featureOK f (splitFeature split)"
  shows "staysLow f split x = Inr (lowSide f split x)"
  by (simp add: staysLow_def lowSide_def score_total [OF assms])

lemma presplitOn_result:
  assumes ctx: "trainCtx f"
    and win: "s + l \<le> length mem"
    and fr: "\<And>x. x \<in> set (take l (drop s mem)) \<Longrightarrow> frameOK f x"
    and ft: "featureOK f (splitFeature split)"
  shows "\<exists>ys sp. presplitOn f mem (Node s l c m df dc lo hi lf r) split =
             Inr (take s mem @ ys @ drop (s + l) mem,
                  Node s l c m (splitFeature split) (splitValue split)
                    (childLeaf s sp (trueBelow split) (missesBelow split) r)
                    (childLeaf (s + sp) (l - sp) (\<not> trueBelow split) (missesAbove split) r)
                    lf r)
           \<and> mset ys = mset (take l (drop s mem))
           \<and> sp = length (filter (lowSide f split) (take l (drop s mem)))
           \<and> take sp ys = filter (lowSide f split) ys
           \<and> drop sp ys = filter (\<lambda>x. \<not> lowSide f split x) ys"
proof -
  define xs where "xs = take l (drop s mem)"
  have tot: "\<And>x. x \<in> set xs \<Longrightarrow> staysLow f split x = Inr (lowSide f split x)"
    using staysLow_total [OF ctx _ ft] fr by (simp add: xs_def)
  from partition_spec [of xs "staysLow f split" "lowSide f split", OF tot]
  obtain ys r' sp where p: "hoare (staysLow f split) xs 0 (int (length xs) - 1) = Inr (ys, r')"
    "scanLo (staysLow f split) ys r' (int (length ys)) = Inr (int sp)"
    "mset ys = mset xs" "sp \<le> length xs"
    "take sp ys = filter (lowSide f split) ys"
    "drop sp ys = filter (\<lambda>x. \<not> lowSide f split x) ys"
    by blast
  have ni: "nodeInputs mem (Node s l c m df dc lo hi lf r) = xs"
    by (simp add: nodeInputs_def xs_def)
  have "length (filter (lowSide f split) ys) = length (filter (lowSide f split) xs)"
    using p(3) by (metis mset_filter size_mset)
  moreover from p(5) p(4) p(3) have "length (filter (lowSide f split) ys) = sp"
    by (metis length_take min.absorb2 mset_eq_length)
  ultimately have sp: "sp = length (filter (lowSide f split) xs)" by simp
  have "presplitOn f mem (Node s l c m df dc lo hi lf r) split =
             Inr (take s mem @ ys @ drop (s + l) mem,
                  Node s l c m (splitFeature split) (splitValue split)
                    (childLeaf s sp (trueBelow split) (missesBelow split) r)
                    (childLeaf (s + sp) (l - sp) (\<not> trueBelow split) (missesAbove split) r)
                    lf r)"
    unfolding presplitOn_def Let_def ni p(1) sum.case prod.case p(2)
    by (simp add: childLeaf_def)
  with p sp show ?thesis unfolding xs_def by blast
qed

lemma upperBar_le: "0 \<le> m \<Longrightarrow> upperBar m \<le> m"
  by (simp add: upperBar_def)

lemma wf_rankRel: "wf rankRel"
  unfolding rankRel_def by (intro wf_lex_prod wf_less_than)

lemma candidate_fields:
  "splitFeature (candidate lab feature pre x tB tA fB fA) = feature"
  "splitValue (candidate lab feature pre x tB tA fB fA) = fst x"
  "misses (candidate lab feature pre x tB tA fB fA) =
     missesBelow (candidate lab feature pre x tB tA fB fA)
     + missesAbove (candidate lab feature pre x tB tA fB fA)"
  by (simp_all add: candidate_def Let_def)

lemma filter_split_length:
  "int (length (filter P xs)) + int (length (filter (\<lambda>x. \<not> P x) xs)) = int (length xs)"
  using sum_length_filter_compl [of P xs] by simp

lemma candidate_rank:
  fixes l :: nat and T :: int
  assumes c: "cand = candidate lab feature pre x 0 T 0 (int l - T)"
    and len: "length pre < l"
    and T: "T = (if cls then int l - m else m)"
    and m: "0 \<le> m"
    and better: "misses cand < upperBar m"
    and spl: "sp \<le> l"
    and spT: "trueBelow cand \<Longrightarrow> sp < l"
    and spF: "\<not> trueBelow cand \<Longrightarrow> 0 < sp"
  shows "(0 < missesBelow cand \<longrightarrow>
            ((sp, if trueBelow cand then 1 else 0, nat (missesBelow cand)),
             (l, if cls then 1 else 0, nat m)) \<in> rankRel)
       \<and> (0 < missesAbove cand \<longrightarrow>
            ((l - sp, if \<not> trueBelow cand then 1 else 0, nat (missesAbove cand)),
             (l, if cls then 1 else 0, nat m)) \<in> rankRel)"
proof -
  define t where "t = int (length (filter (\<lambda>p. lab (snd p) = 1) pre))"
  define e where "e = int (length (filter (\<lambda>p. lab (snd p) \<noteq> 1) pre))"
  have te: "t + e = int (length pre)" "0 \<le> t" "0 \<le> e"
    using filter_split_length [of "\<lambda>p. lab (snd p) = 1" pre] by (simp_all add: t_def e_def)
  from better upperBar_le [OF m] have bm: "misses cand < m" by simp
  show ?thesis
  proof (cases "trueBelow cand")
    case True
    with c have cf: "missesBelow cand = e" "missesAbove cand = T - t" "misses cand = e + (T - t)"
      by (auto simp: candidate_def Let_def t_def e_def split: if_splits)
    from spT [OF True] have "sp < l" .
    moreover have "0 < T - t \<Longrightarrow> sp = 0 \<Longrightarrow> \<not> cls \<Longrightarrow> nat (T - t) < nat m"
      using T bm cf te by auto
    ultimately show ?thesis using True cf spl
      by (auto simp: rankRel_def)
  next
    case False
    with c have cf: "missesBelow cand = t" "missesAbove cand = int l - T - e"
      "misses cand = t + (int l - T - e)"
      by (auto simp: candidate_def Let_def t_def e_def split: if_splits)
    from spF [OF False] have "0 < sp" .
    moreover have "0 < t \<Longrightarrow> sp = l \<Longrightarrow> \<not> cls \<Longrightarrow> nat t < nat m"
      using T bm cf te len by auto
    ultimately show ?thesis using False cf spl
      by (auto simp: rankRel_def)
  qed
qed


section \<open>The best split of a fresh leaf\<close>

lemma allowed_keys:
  assumes ctx: "trainCtx f"
  shows "idx (allowed f) 0 = Inr (map int [0 ..< nat (2 * frameSize f - 1)])"
    and "remdups (map int [0 ..< nat (2 * frameSize f - 1)]) = map int [0 ..< nat (2 * frameSize f - 1)]"
    and "map int [0 ..< nat (2 * frameSize f - 1)] \<noteq> []"
    and "\<And>k. k \<in> set (map int [0 ..< nat (2 * frameSize f - 1)]) \<Longrightarrow> featureOK f k"
proof -
  from ctx show "idx (allowed f) 0 = Inr (map int [0 ..< nat (2 * frameSize f - 1)])"
    by (simp add: trainCtx_def idx_def)
  have "distinct (map int [0 ..< nat (2 * frameSize f - 1)])"
    by (simp add: distinct_map)
  then show "remdups (map int [0 ..< nat (2 * frameSize f - 1)]) = map int [0 ..< nat (2 * frameSize f - 1)]"
    by (rule distinct_remdups_id)
  from ctx show "map int [0 ..< nat (2 * frameSize f - 1)] \<noteq> []"
    by (simp add: trainCtx_def)
  show "\<And>k. k \<in> set (map int [0 ..< nat (2 * frameSize f - 1)]) \<Longrightarrow> featureOK f k"
    by (auto simp: featureOK_def)
qed

lemma precalc_unfold:
  assumes ctx: "trainCtx f" and n: "n = Node s l c m df dc lo hi lf 0"
  shows "precalcBestSplit f order mem n =
     (case bestOver f (nodeInputs mem n) n (order (features f)) (noSplit (upperBar m)) of
        Inl e \<Rightarrow> Inl e
      | Inr bestSplit \<Rightarrow>
          if splitFeature bestSplit \<noteq> - 1 then presplitOn f mem n bestSplit
          else Inr (mem, n))"
  unfolding precalcBestSplit_def features_def using allowed_keys(1,3) [OF ctx]
  by (simp add: n noSplit_def distinct_map distinct_remdups_id)

lemma window_mset:
  assumes "s + l \<le> length mem"
  shows "mset mem = mset (take s mem) + mset (take l (drop s mem)) + mset (drop (s + l) mem)"
proof -
  have "mem = take s mem @ take l (drop s mem) @ drop (s + l) mem"
    by (metis add.commute append_take_drop_id drop_drop)
  then have "mset mem = mset (take s mem @ take l (drop s mem) @ drop (s + l) mem)" by simp
  then show ?thesis by (simp only: mset_append add.assoc)
qed

lemma precalc_result:
  assumes ctx: "trainCtx f"
    and win: "s + l \<le> length mem"
    and fr: "\<And>x. x \<in> set (take l (drop s mem)) \<Longrightarrow> frameOK f x"
    and m: "0 \<le> m"
    and ord: "set (order (features f)) = set (features f)"
  shows "\<exists>mem' n'. precalcBestSplit f order mem (childLeaf s l c m 0) = Inr (mem', n')
           \<and> length mem' = length mem \<and> mset mem' = mset mem
           \<and> take s mem' = take s mem \<and> drop (s + l) mem' = drop (s + l) mem
           \<and> (decideFeature n' \<noteq> - 1 \<longleftrightarrow>
                (\<exists>k \<in> set (features f).
                   featureMisses f (take l (drop s mem)) (childLeaf s l c m 0) k < upperBar m))
           \<and> (n' = childLeaf s l c m 0 \<and> mem' = mem
               \<or> (\<exists>df dc sp tb a b.
                    n' = Node s l c m df dc (childLeaf s sp tb a 0)
                           (childLeaf (s + sp) (l - sp) (\<not> tb) b 0) True 0
                    \<and> df \<noteq> - 1 \<and> sp \<le> l \<and> a + b < upperBar m
                    \<and> (0 < a \<longrightarrow> ((sp, if tb then 1 else 0, nat a),
                                      (l, if c then 1 else 0, nat m)) \<in> rankRel)
                    \<and> (0 < b \<longrightarrow> ((l - sp, if \<not> tb then 1 else 0, nat b),
                                      (l, if c then 1 else 0, nat m)) \<in> rankRel)))"
proof -
  define n where "n = childLeaf s l c m 0"
  define xs where "xs = take l (drop s mem)"
  have nn: "n = Node s l c m (- 1) (- 1) NilNode NilNode True 0"
    by (simp add: n_def childLeaf_def)
  have ni: "nodeInputs mem n = xs" by (simp add: nn nodeInputs_def xs_def)
  have frx: "\<And>x. x \<in> set xs \<Longrightarrow> frameOK f x" using fr by (simp add: xs_def)
  have ftk: "\<And>k. k \<in> set (order (features f)) \<Longrightarrow> featureOK f k"
    using allowed_keys(4) [OF ctx] ord by (simp add: features_def)
  have lx: "length xs = l" using win by (simp add: xs_def)
  from bestOver_result [of f xs "order (features f)" n "noSplit (upperBar m)", OF ctx frx ftk]
  obtain b where b: "bestOver f xs n (order (features f)) (noSplit (upperBar m)) = Inr b"
    and mn: "\<forall>k \<in> set (order (features f)). \<forall>c. splitReduction f xs n k = Inr c \<longrightarrow> misses b \<le> misses c"
    and d: "b = noSplit (upperBar m) \<or> (misses b < misses (noSplit (upperBar m))
                \<and> (\<exists>k \<in> set (order (features f)). splitReduction f xs n k = Inr b))"
    by blast
  have total: "\<exists>c. splitReduction f xs n k = Inr c" if "k \<in> set (features f)" for k
    using splitReduction_result [of f xs k n, OF ctx frx] ftk that ord by auto
  note unf = precalc_unfold [OF ctx nn, of order mem, unfolded ni b sum.case]
  from d show ?thesis
  proof
    assume bb: "b = noSplit (upperBar m)"
    then have "splitFeature b = - 1" by (simp add: noSplit_def)
    with unf have "precalcBestSplit f order mem n = Inr (mem, n)" by simp
    moreover have "\<not> (\<exists>k \<in> set (features f). featureMisses f xs n k < upperBar m)"
    proof
      assume "\<exists>k \<in> set (features f). featureMisses f xs n k < upperBar m"
      then obtain k where k: "k \<in> set (features f)" "featureMisses f xs n k < upperBar m" by blast
      from total [OF k(1)] obtain c where c: "splitReduction f xs n k = Inr c" by blast
      with mn k(1) ord have "misses b \<le> misses c" by auto
      with k(2) c bb show False by (simp add: featureMisses_def noSplit_def)
    qed
    moreover have "decideFeature n = - 1" by (simp add: nn)
    ultimately show ?thesis unfolding n_def xs_def by simp
  next
    assume "misses b < misses (noSplit (upperBar m))
                \<and> (\<exists>k \<in> set (order (features f)). splitReduction f xs n k = Inr b)"
    then obtain k where bm: "misses b < upperBar m" and k: "k \<in> set (order (features f))"
      and sr: "splitReduction f xs n k = Inr b"
      by (auto simp: noSplit_def)
    from splitReduction_result [of f xs k n, OF ctx frx ftk [OF k]] sr
    have "b = noSplit (misclassified n)
               \<or> (misses b < misclassified n
                   \<and> (\<exists>pre x post. sortedPairs f k xs = pre @ x # post
                        \<and> b = candidate (labelOf f) k pre x
                              0 (storedTrue xs n) 0 (int (length xs) - storedTrue xs n)))"
      by simp
    moreover have "b \<noteq> noSplit (misclassified n)"
      using bm upperBar_le [OF m] by (auto simp: noSplit_def nn)
    ultimately obtain pre x post where sp: "sortedPairs f k xs = pre @ x # post"
      and cand: "b = candidate (labelOf f) k pre x
                              0 (storedTrue xs n) 0 (int (length xs) - storedTrue xs n)"
      by blast
    from cand have bf: "splitFeature b = k" "splitValue b = fst x"
      "misses b = missesBelow b + missesAbove b"
      by (simp_all add: candidate_fields)
    from ftk [OF k] have kok: "featureOK f k" .
    then have kne: "k \<noteq> - 1" by (simp add: featureOK_def)
    from sp have "x \<in> set (sortedPairs f k xs)" by simp
    from sortedPairs_set [OF this] have xin: "snd x \<in> set xs" and xsc: "fst x = scoreOf f k (snd x)"
      by simp_all
    from sp have "length (sortedPairs f k xs) = length pre + 1 + length post" by simp
    then have lpre: "length pre < l" using lx by simp
    from presplitOn_result [OF ctx win fr, of b c m "- 1" "- 1" NilNode NilNode True 0] kok bf(1)
    obtain ys q where ps: "presplitOn f mem n b =
             Inr (take s mem @ ys @ drop (s + l) mem,
                  Node s l c m (splitFeature b) (splitValue b)
                    (childLeaf s q (trueBelow b) (missesBelow b) 0)
                    (childLeaf (s + q) (l - q) (\<not> trueBelow b) (missesAbove b) 0)
                    True 0)"
      and ms: "mset ys = mset xs"
      and q: "q = length (filter (lowSide f b) xs)"
      unfolding nn xs_def by auto
    from ms have ly: "length ys = l" using lx by (metis mset_eq_length)
    have ql: "q \<le> l" using q lx by (metis length_filter_le)
    have qT: "trueBelow b \<Longrightarrow> q < l"
    proof -
      assume "trueBelow b"
      then have "\<not> lowSide f b (snd x)" by (simp add: lowSide_def bf xsc)
      with xin have "length (filter (lowSide f b) xs) < length xs"
        by (rule length_filter_less)
      with q lx show "q < l" by simp
    qed
    have qF: "\<not> trueBelow b \<Longrightarrow> 0 < q"
    proof -
      assume "\<not> trueBelow b"
      then have "lowSide f b (snd x)" by (simp add: lowSide_def bf xsc)
      with xin have "filter (lowSide f b) xs \<noteq> []"
        by (auto simp: filter_empty_conv)
      with q show "0 < q" by simp
    qed
    have st: "storedTrue xs n = (if c then int l - m else m)"
      by (simp add: storedTrue_def nn lx)
    from candidate_rank [OF cand [unfolded lx] lpre st m bm ql qT qF]
    have rk: "(0 < missesBelow b \<longrightarrow>
            ((q, if trueBelow b then 1 else 0, nat (missesBelow b)),
             (l, if c then 1 else 0, nat m)) \<in> rankRel)
       \<and> (0 < missesAbove b \<longrightarrow>
            ((l - q, if \<not> trueBelow b then 1 else 0, nat (missesAbove b)),
             (l, if c then 1 else 0, nat m)) \<in> rankRel)" .
    define mem' where "mem' = take s mem @ ys @ drop (s + l) mem"
    define n' where "n' = Node s l c m (splitFeature b) (splitValue b)
                    (childLeaf s q (trueBelow b) (missesBelow b) 0)
                    (childLeaf (s + q) (l - q) (\<not> trueBelow b) (missesAbove b) 0)
                    True 0"
    from unf bf kne ps have pr: "precalcBestSplit f order mem (childLeaf s l c m 0) = Inr (mem', n')"
      by (simp add: mem'_def n'_def n_def)
    have l1: "length mem' = length mem" using win ly by (simp add: mem'_def)
    have l2: "mset mem' = mset mem"
      using window_mset [OF win] ms by (simp add: mem'_def xs_def)
    have l3: "take s mem' = take s mem" using win by (simp add: mem'_def)
    have l4: "drop (s + l) mem' = drop (s + l) mem" using win ly by (simp add: mem'_def)
    from bf(3) bm have ab: "missesBelow b + missesAbove b < upperBar m" by linarith
    have iff: "decideFeature n' \<noteq> - 1 \<longleftrightarrow>
                (\<exists>k \<in> set (features f).
                   featureMisses f (take l (drop s mem)) (childLeaf s l c m 0) k < upperBar m)"
    proof -
      from k ord have "k \<in> set (features f)" by simp
      moreover from sr bm have "featureMisses f xs n k < upperBar m"
        by (simp add: featureMisses_def)
      moreover from kne bf(1) have "decideFeature n' \<noteq> - 1" by (simp add: n'_def)
      ultimately show ?thesis unfolding xs_def n_def by blast
    qed
    from kne bf(1) have dfn: "splitFeature b \<noteq> - 1" by simp
    have ex: "\<exists>df dc sp tb a b'.
            n' = Node s l c m df dc (childLeaf s sp tb a 0)
                           (childLeaf (s + sp) (l - sp) (\<not> tb) b' 0) True 0
                    \<and> df \<noteq> - 1 \<and> sp \<le> l \<and> a + b' < upperBar m
                    \<and> (0 < a \<longrightarrow> ((sp, if tb then 1 else 0, nat a),
                                      (l, if c then 1 else 0, nat m)) \<in> rankRel)
                    \<and> (0 < b' \<longrightarrow> ((l - sp, if \<not> tb then 1 else 0, nat b'),
                                      (l, if c then 1 else 0, nat m)) \<in> rankRel)"
      unfolding n'_def
      apply (rule exI [of _ "splitFeature b"])
      apply (rule exI [of _ "splitValue b"])
      apply (rule exI [of _ q])
      apply (rule exI [of _ "trueBelow b"])
      apply (rule exI [of _ "missesBelow b"])
      apply (rule exI [of _ "missesAbove b"])
      using dfn ql ab rk apply (intro conjI)
           apply (rule refl)
          apply assumption+
       apply (erule conjunct1)
      apply (erule conjunct2)
      done
    show ?thesis
      apply (rule exI [of _ mem'])
      apply (rule exI [of _ n'])
      using pr l1 l2 l3 l4 iff ex apply (intro conjI)
            apply assumption+
      apply (rule disjI2)
      apply assumption
      done
  qed
qed


section \<open>Trees and paths\<close>

lemma wfNode_fields: "wfNode s l n \<Longrightarrow> n \<noteq> NilNode \<and> inStart n = s \<and> inLen n = l \<and> originalRoot n = 0"
  by (cases n) auto

lemma nodeAt_append: "nodeAt n (p @ q) = nodeAt (nodeAt n p) q"
proof (induction p arbitrary: n)
  case Nil
  show ?case by simp
next
  case (Cons b p)
  show ?case
  proof (cases n)
    case NilNode
    then show ?thesis by (cases q) simp_all
  next
    case (Node s l c m df dc lo hi lf r)
    then show ?thesis using Cons.IH by simp
  qed
qed

lemma nodeAt_Nil [simp]: "nodeAt NilNode p = NilNode"
  by (cases p) simp_all

lemma nodeAt_snoc:
  "nodeAt n (p @ [b]) =
     (if nodeAt n p = NilNode then NilNode
      else if b then highEqChild (nodeAt n p) else lowerChild (nodeAt n p))"
  unfolding nodeAt_append by (cases "nodeAt n p") simp_all

lemma wfNode_sub:
  "wfNode s l t \<Longrightarrow> nodeAt t p \<noteq> NilNode \<Longrightarrow>
     wfNode (inStart (nodeAt t p)) (inLen (nodeAt t p)) (nodeAt t p)
     \<and> s \<le> inStart (nodeAt t p) \<and> inStart (nodeAt t p) + inLen (nodeAt t p) \<le> s + l"
proof (induction p arbitrary: t s l)
  case Nil
  then show ?case using wfNode_fields [of s l t] by simp
next
  case (Cons b p)
  from Cons.prems obtain c m df dc lo hi lf r where t: "t = Node s l c m df dc lo hi lf r"
    by (cases t) auto
  from Cons.prems(2) t have ne: "nodeAt (if b then hi else lo) p \<noteq> NilNode" by simp
  then have ch: "(if b then hi else lo) \<noteq> NilNode" by (cases b; cases hi; cases lo) auto
  with Cons.prems(1) t have w: "inLen lo \<le> l" "wfNode s (inLen lo) lo"
    "wfNode (s + inLen lo) (l - inLen lo) hi"
    by (auto split: if_splits)
  show ?case
  proof (cases b)
    case True
    with Cons.IH [OF w(3)] ne w(1) t show ?thesis by auto
  next
    case False
    with Cons.IH [OF w(2)] ne w(1) t show ?thesis by auto
  qed
qed

lemma nodeAt_putAt_same: "nodeAt t p \<noteq> NilNode \<Longrightarrow> nodeAt (putAt p n' t) p = n'"
proof (induction p arbitrary: t)
  case Nil
  show ?case by simp
next
  case (Cons b p)
  then show ?case by (cases t) auto
qed

lemma nodeAt_putAt_other:
  "\<not> prefix p q \<Longrightarrow> \<not> prefix q p \<Longrightarrow> nodeAt (putAt p n' t) q = nodeAt t q"
proof (induction p arbitrary: t q)
  case Nil
  then show ?case by simp
next
  case (Cons b p)
  from Cons.prems obtain b' q' where q: "q = b' # q'" by (cases q) auto
  show ?case
  proof (cases t)
    case NilNode
    then show ?thesis by simp
  next
    case (Node s l c m df dc lo hi lf r)
    show ?thesis
    proof (cases "b = b'")
      case True
      with Cons.prems q have "\<not> prefix p q'" "\<not> prefix q' p" by simp_all
      from Cons.IH [OF this] True q Node show ?thesis by simp
    next
      case False
      with q Node show ?thesis by auto
    qed
  qed
qed

text \<open>Replacing a subtree by one on the same window with the same stored count.\<close>

lemma wfNode_putAt:
  assumes "wfNode s l t" and "nodeAt t p \<noteq> NilNode"
    and "wfNode (inStart (nodeAt t p)) (inLen (nodeAt t p)) n'"
    and "misclassified n' = misclassified (nodeAt t p)"
    and "classifyAsTrue n' = classifyAsTrue (nodeAt t p)"
    and "isFresh n' \<or> \<not> isFresh (nodeAt t p) \<or> p = [] \<or> \<not> isLeaf (nodeAt t (butlast p))"
  shows "wfNode s l (putAt p n' t)"
  using assms
proof (induction p arbitrary: t s l)
  case Nil
  then show ?case using wfNode_fields [of s l t] by simp
next
  case (Cons b p)
  from Cons.prems(1) obtain c m df dc lo hi lf r where t: "t = Node s l c m df dc lo hi lf r"
    by (cases t) auto
  define ch where "ch = (if b then hi else lo)"
  from Cons.prems(2) t have ne: "nodeAt ch p \<noteq> NilNode" by (simp add: ch_def)
  then have chn: "ch \<noteq> NilNode" by (cases ch) auto
  with Cons.prems(1) t have w: "lo \<noteq> NilNode" "hi \<noteq> NilNode" "df \<noteq> - 1" "0 \<le> m" "inLen lo \<le> l"
    "wfNode s (inLen lo) lo" "wfNode (s + inLen lo) (l - inLen lo) hi"
    "misclassified lo + misclassified hi < upperBar m"
    "0 < misclassified lo \<longrightarrow> (rank lo, (l, if c then 1 else 0, nat m)) \<in> rankRel"
    "0 < misclassified hi \<longrightarrow> (rank hi, (l, if c then 1 else 0, nat m)) \<in> rankRel"
    "lf \<longrightarrow> isFresh lo \<and> isFresh hi"
    by (auto simp: ch_def split: if_splits)
  have chw: "\<exists>s' l'. wfNode s' l' ch" using w(6,7) by (auto simp: ch_def)
  have n3: "wfNode (inStart (nodeAt ch p)) (inLen (nodeAt ch p)) n'"
    and n4: "misclassified n' = misclassified (nodeAt ch p)"
    and n4': "classifyAsTrue n' = classifyAsTrue (nodeAt ch p)"
    using Cons.prems(3,4,5) t by (simp_all add: ch_def)
  have n5: "isFresh n' \<or> \<not> isFresh (nodeAt ch p) \<or> p = [] \<or> \<not> isLeaf (nodeAt ch (butlast p))"
    using Cons.prems(6) t by (auto simp: ch_def split: if_splits)
  define ch' where "ch' = putAt p n' ch"
  have sub: "\<And>s' l'. wfNode s' l' ch \<Longrightarrow> wfNode s' l' ch'"
    unfolding ch'_def using Cons.IH [OF _ ne n3 n4 n4' n5] by simp
  have keep: "inLen ch' = inLen ch \<and> misclassified ch' = misclassified ch
      \<and> classifyAsTrue ch' = classifyAsTrue ch \<and> ch' \<noteq> NilNode"
  proof (cases p)
    case Nil
    from chw obtain s' l' where "wfNode s' l' ch" by blast
    from wfNode_fields [OF this] have "inStart ch = s'" "inLen ch = l'" by simp_all
    with Nil n3 n4 n4' wfNode_fields [of "inStart ch" "inLen ch" n'] show ?thesis
      by (simp add: ch'_def)
  next
    case (Cons b' p')
    with chn show ?thesis by (cases ch) (auto simp: ch'_def)
  qed
  have fr: "lf \<Longrightarrow> isFresh ch'"
  proof -
    assume lf: lf
    with w(11) have f: "isFresh ch" by (auto simp: ch_def)
    show "isFresh ch'"
    proof (cases p)
      case Nil
      with Cons.prems(6) t lf f show ?thesis by (auto simp: ch'_def ch_def)
    next
      case (Cons b' p')
      with f ne show ?thesis by (cases ch) (auto simp: isFresh_def)
    qed
  qed
  have rk: "rank ch' = rank ch" using keep by (simp add: rank_def)
  show ?case
  proof (cases b)
    case True
    then have "putAt (b # p) n' t = Node s l c m df dc lo ch' lf r"
      by (simp add: t ch'_def ch_def)
    moreover have "wfNode s l (Node s l c m df dc lo ch' lf r)"
      using w sub [of "s + inLen lo" "l - inLen lo"] keep fr rk Cons.prems(1) t True
      by (auto simp: ch_def)
    ultimately show ?thesis by (simp only:)
  next
    case False
    then have "putAt (b # p) n' t = Node s l c m df dc ch' hi lf r"
      by (simp add: t ch'_def ch_def)
    moreover have "wfNode s l (Node s l c m df dc ch' hi lf r)"
      using w sub [of s "inLen lo"] keep fr rk Cons.prems(1) t False
      by (auto simp: ch_def)
    ultimately show ?thesis by (simp only:)
  qed
qed

lemma wfNode_fresh:
  "wfNode s l n \<Longrightarrow> isFresh n \<Longrightarrow> n = childLeaf s l (classifyAsTrue n) (misclassified n) 0"
  by (cases n) (auto simp: isFresh_def childLeaf_def)

lemma wfNode_childLeaf: "wfNode s l (childLeaf s l c m 0)"
  by (simp add: childLeaf_def)

lemma isFresh_childLeaf: "isFresh (childLeaf s l c m r)"
  by (simp add: childLeaf_def isFresh_def)

lemma wfNode_candidate:
  "wfNode s l n \<Longrightarrow> \<not> isFresh n \<Longrightarrow>
     lowerChild n \<noteq> NilNode \<and> highEqChild n \<noteq> NilNode \<and> decideFeature n \<noteq> - 1
     \<and> 0 \<le> misclassified n
     \<and> misclassified (lowerChild n) + misclassified (highEqChild n) < upperBar (misclassified n)
     \<and> (0 < misclassified (lowerChild n) \<longrightarrow> (rank (lowerChild n), rank n) \<in> rankRel)
     \<and> (0 < misclassified (highEqChild n) \<longrightarrow> (rank (highEqChild n), rank n) \<in> rankRel)
     \<and> (isLeaf n \<longrightarrow> isFresh (lowerChild n) \<and> isFresh (highEqChild n))"
  by (cases n) (auto simp: isFresh_def rank_def split: if_splits)

lemma wfNode_fresh_feature: "wfNode s l n \<Longrightarrow> isFresh n \<Longrightarrow> decideFeature n = - 1 \<and> isLeaf n"
  by (cases n) (auto simp: isFresh_def)

lemma nodeAt_fresh_below: "isFresh n \<Longrightarrow> nodeAt n (b # p) = NilNode"
  by (cases n) (auto simp: isFresh_def)

lemma nodeAt_putAt_prefix:
  "nodeAt t p \<noteq> NilNode \<Longrightarrow> nodeAt (putAt (p @ q) n' t) p = putAt q n' (nodeAt t p)"
proof (induction p arbitrary: t)
  case Nil
  show ?case by simp
next
  case (Cons b p)
  then show ?case by (cases t) auto
qed

text \<open>Two leaves that hold a candidate lie on incomparable paths.\<close>

lemma leaves_incomparable:
  assumes w: "wfNode s l t"
    and a: "nodeAt t a \<noteq> NilNode" "isLeaf (nodeAt t a)" "\<not> isFresh (nodeAt t a)"
    and b: "nodeAt t b \<noteq> NilNode" "\<not> isFresh (nodeAt t b)"
    and ne: "a \<noteq> b"
  shows "\<not> prefix a b"
proof
  assume "prefix a b"
  then obtain zs where "b = a @ zs" by (auto simp: prefix_def)
  with ne obtain x rest where br: "b = a @ x # rest" by (cases zs) auto
  from wfNode_sub [OF w a(1)] have wa: "wfNode (inStart (nodeAt t a)) (inLen (nodeAt t a)) (nodeAt t a)"
    by simp
  from wfNode_candidate [OF wa a(3)] a(2)
  have fc: "isFresh (lowerChild (nodeAt t a))" "isFresh (highEqChild (nodeAt t a))" by simp_all
  have "nodeAt t (a @ [x]) = (if x then highEqChild (nodeAt t a) else lowerChild (nodeAt t a))"
    using a(1) by (simp add: nodeAt_snoc)
  with fc have fx: "isFresh (nodeAt t (a @ [x]))" by simp
  have "nodeAt t b = nodeAt (nodeAt t (a @ [x])) rest"
    using br nodeAt_append [of t "a @ [x]" rest] by simp
  with fx b show False by (cases rest) (auto simp: nodeAt_fresh_below)
qed

text \<open>A fresh child of a branch is incomparable with every leaf that holds a candidate.\<close>

lemma fresh_child_incomparable:
  assumes w: "wfNode s l t"
    and p: "nodeAt t p \<noteq> NilNode" "\<not> isLeaf (nodeAt t p)"
    and c: "isFresh (nodeAt t (p @ [b]))"
    and q: "nodeAt t q \<noteq> NilNode" "isLeaf (nodeAt t q)" "\<not> isFresh (nodeAt t q)"
  shows "\<not> prefix (p @ [b]) q \<and> \<not> prefix q (p @ [b])"
proof (intro conjI notI)
  assume "prefix (p @ [b]) q"
  then obtain rest where qr: "q = (p @ [b]) @ rest" by (auto simp: prefix_def)
  then have "nodeAt t q = nodeAt (nodeAt t (p @ [b])) rest" by (simp only: nodeAt_append)
  with c q(1,3) show False by (cases rest) (auto simp: nodeAt_fresh_below)
next
  assume "prefix q (p @ [b])"
  then have "prefix q p \<or> q = p @ [b]" by (auto simp: prefix_snoc)
  then show False
  proof
    assume "q = p @ [b]"
    with c q(3) show False by simp
  next
    assume pq: "prefix q p"
    from p(2) q(2) have "q \<noteq> p" by auto
    have pf: "\<not> isFresh (nodeAt t p)"
    proof
      assume "isFresh (nodeAt t p)"
      then have "nodeAt t (p @ [b]) = NilNode"
        using nodeAt_append [of t p "[b]"] by (simp add: nodeAt_fresh_below)
      with c show False by (simp add: isFresh_def)
    qed
    from leaves_incomparable [OF w q p(1) pf \<open>q \<noteq> p\<close>] pq show False by simp
  qed
qed

lemma putAt_root_fields:
  assumes "nodeAt t p \<noteq> NilNode" and "misclassified n' = misclassified (nodeAt t p)"
    and "classifyAsTrue n' = classifyAsTrue (nodeAt t p)"
  shows "misclassified (putAt p n' t) = misclassified t
       \<and> classifyAsTrue (putAt p n' t) = classifyAsTrue t"
proof (cases p)
  case Nil
  with assms show ?thesis by simp
next
  case (Cons b bs)
  with assms(1) show ?thesis by (cases t) auto
qed


section \<open>The heap operations\<close>

lemma Less_total:
  assumes "cmpOK rs pq" and "i < length pq" and "j < length pq"
  shows "\<exists>b. Less rs pq (int i) (int j) = Inr b"
proof -
  from assms have "\<exists>v. fixOf rs (pq ! i) = Inr v" "\<exists>v. fixOf rs (pq ! j) = Inr v"
    by (auto simp: cmpOK_def)
  with assms(2,3) show ?thesis by (auto simp: Less_def idx_def)
qed

lemma swapAt_nat:
  assumes "i < length pq" and "j < length pq"
  shows "swapAt pq (int i) (int j) = Inr (pq[i := pq ! j, j := pq ! i])"
  using assms by (simp add: swapAt_def idx_def)

lemma cmpOK_mset: "mset pq' = mset pq \<Longrightarrow> cmpOK rs pq \<Longrightarrow> cmpOK rs pq'"
  by (metis cmpOK_def mset_eq_setD)

lemma up_spec:
  assumes "cmpOK rs pq" and "j < length pq"
  shows "\<exists>pq'. up rs pq j = Inr pq' \<and> mset pq' = mset pq"
  using assms
proof (induction rs pq j rule: up.induct)
  case (1 rs pq j)
  define i where "i = (j - 1) div 2"
  have unf: "up rs pq j =
     (if i = j then Inr pq
      else
        (case Less rs pq (int j) (int i) of
           Inl e \<Rightarrow> Inl e
         | Inr b \<Rightarrow>
             if \<not> b then Inr pq
             else
               (case swapAt pq (int i) (int j) of
                  Inl e \<Rightarrow> Inl e
                | Inr pq1 \<Rightarrow> up rs pq1 i)))"
    by (subst up.simps) (simp only: Let_def i_def)
  have ij: "i \<le> j" by (simp add: i_def)
  show ?case
  proof (cases "i = j")
    case True
    with unf show ?thesis by simp
  next
    case False
    with ij "1.prems" have il: "i < length pq" "i < j" by simp_all
    from Less_total [OF "1.prems"(1,2) il(1)] obtain b where b: "Less rs pq (int j) (int i) = Inr b"
      by blast
    show ?thesis
    proof (cases b)
      case False
      with unf b \<open>i \<noteq> j\<close> show ?thesis by simp
    next
      case True
      define pq1 where "pq1 = pq[i := pq ! j, j := pq ! i]"
      have sw: "swapAt pq (int i) (int j) = Inr pq1"
        unfolding pq1_def using il(1) "1.prems"(2) by (rule swapAt_nat)
      have ms: "mset pq1 = mset pq"
        unfolding pq1_def using il(1) "1.prems"(2) by (simp add: mset_swap)
      have "cmpOK rs pq1" using ms "1.prems"(1) by (rule cmpOK_mset)
      moreover have "i < length pq1" using il(1) by (simp add: pq1_def)
      ultimately obtain pq' where r: "up rs pq1 i = Inr pq'" "mset pq' = mset pq1"
        using "1.IH" [OF i_def \<open>i \<noteq> j\<close> b _ sw] True by auto
      from unf b True \<open>i \<noteq> j\<close> sw r(1) have "up rs pq j = Inr pq'" by simp
      with r(2) ms show ?thesis by simp
    qed
  qed
qed

lemma down_trivial: "n \<le> 1 \<Longrightarrow> down rs pq i n = Inr pq"
  by (subst down.simps) (simp add: Let_def)

lemma down_spec:
  assumes "cmpOK rs pq" and "n \<le> length pq"
  shows "\<exists>pq'. down rs pq i n = Inr pq' \<and> mset pq' = mset pq
           \<and> (\<forall>k. n \<le> k \<longrightarrow> pq' ! k = pq ! k)"
  using assms
proof (induction rs pq i n rule: down.induct)
  case (1 rs pq i n)
  define j1 where "j1 = 2 * i + 1"
  define rt where "rt = (if j1 + 1 < n then Less rs pq (int (j1 + 1)) (int j1) else Inr False)"
  have unf: "down rs pq i n =
     (if j1 \<ge> n then Inr pq
      else
        (case rt of
           Inl e \<Rightarrow> Inl e
         | Inr right \<Rightarrow>
             (case Less rs pq (int (if right then j1 + 1 else j1)) (int i) of
                Inl e \<Rightarrow> Inl e
              | Inr b \<Rightarrow>
                  if \<not> b then Inr pq
                  else
                    (case swapAt pq (int i) (int (if right then j1 + 1 else j1)) of
                       Inl e \<Rightarrow> Inl e
                     | Inr pq1 \<Rightarrow> down rs pq1 (if right then j1 + 1 else j1) n))))"
    by (subst down.simps) (simp only: Let_def j1_def rt_def)
  show ?case
  proof (cases "n \<le> j1")
    case True
    with unf show ?thesis by simp
  next
    case False
    then have j1n: "j1 < n" by simp
    have "\<exists>right. rt = Inr right"
      using Less_total [OF "1.prems"(1), of "j1 + 1" j1] j1n "1.prems"(2)
      by (auto simp: rt_def)
    then obtain right where right: "rt = Inr right" by blast
    define j where "j = (if right then j1 + 1 else j1)"
    have jn: "j < n" "i < j"
      using j1n right by (auto simp: j_def rt_def j1_def split: if_splits)
    with "1.prems"(2) have jl: "j < length pq" "i < length pq" by simp_all
    from Less_total [OF "1.prems"(1) jl] obtain b where b: "Less rs pq (int j) (int i) = Inr b"
      by blast
    note unf' = unf [unfolded right sum.case j_def [symmetric]]
    show ?thesis
    proof (cases b)
      case False
      with unf' b \<open>\<not> n \<le> j1\<close> show ?thesis by simp
    next
      case True
      define pq1 where "pq1 = pq[i := pq ! j, j := pq ! i]"
      have sw: "swapAt pq (int i) (int j) = Inr pq1"
        unfolding pq1_def using jl(2,1) by (rule swapAt_nat)
      have ms: "mset pq1 = mset pq"
        unfolding pq1_def using jl by (simp add: mset_swap)
      have c1: "cmpOK rs pq1" using ms "1.prems"(1) by (rule cmpOK_mset)
      have l1: "n \<le> length pq1" using "1.prems"(2) by (simp add: pq1_def)
      have "\<exists>pq'. down rs pq1 j n = Inr pq' \<and> mset pq' = mset pq1
           \<and> (\<forall>k. n \<le> k \<longrightarrow> pq' ! k = pq1 ! k)"
        using "1.IH" [OF j1_def _ right [unfolded rt_def] j_def b _ sw c1 l1] True False
        by simp
      then obtain pq' where r: "down rs pq1 j n = Inr pq'" "mset pq' = mset pq1"
        "\<forall>k. n \<le> k \<longrightarrow> pq' ! k = pq1 ! k" by blast
      have keep: "\<forall>k. n \<le> k \<longrightarrow> pq1 ! k = pq ! k"
        using jn by (auto simp: pq1_def)
      from unf' b True \<open>\<not> n \<le> j1\<close> sw r(1) have "down rs pq i n = Inr pq'" by simp
      with r(2,3) ms keep show ?thesis by simp
    qed
  qed
qed

lemma heapPop_spec:
  assumes "length pq = 1 \<or> cmpOK rs pq" and "pq \<noteq> []"
  shows "\<exists>pq'. heapPop rs pq = Inr (hd pq, pq') \<and> mset pq = add_mset (hd pq) (mset pq')"
proof -
  define n where "n = length pq - 1"
  from assms(2) have n: "n < length pq" "int (length pq) - 1 = int n" "nat (int n) = n"
    by (cases pq; simp add: n_def)+
  define pq1 where "pq1 = pq[0 := pq ! n, n := pq ! 0]"
  from assms(2) n(1) have sw: "swapAt pq 0 (int n) = Inr pq1"
    unfolding pq1_def using swapAt_nat [of 0 pq n] by simp
  have ms1: "mset pq1 = mset pq"
    unfolding pq1_def using assms(2) n(1) by (simp add: mset_swap)
  have l1: "length pq1 = length pq" by (simp add: pq1_def)
  have "\<exists>pq2. down rs pq1 0 n = Inr pq2 \<and> mset pq2 = mset pq1
           \<and> (\<forall>k. n \<le> k \<longrightarrow> pq2 ! k = pq1 ! k)"
  proof (cases "length pq = 1")
    case True
    then have "n \<le> 1" by (simp add: n_def)
    from down_trivial [OF this] show ?thesis by simp
  next
    case False
    with assms(1) have "cmpOK rs pq" by simp
    with ms1 have "cmpOK rs pq1" by (metis cmpOK_mset)
    moreover have "n \<le> length pq1" using n(1) l1 by simp
    ultimately show ?thesis by (rule down_spec)
  qed
  then obtain pq2 where d: "down rs pq1 0 n = Inr pq2" "mset pq2 = mset pq1"
    "\<forall>k. n \<le> k \<longrightarrow> pq2 ! k = pq1 ! k" by blast
  from d(2) ms1 have l2: "length pq2 = length pq" by (metis mset_eq_length)
  have last: "pq2 ! n = hd pq"
    using d(3) n(1) assms(2) by (simp add: pq1_def hd_conv_nth)
  have ix: "idx pq2 (int (length pq2) - 1) = Inr (hd pq)"
    using l2 n last by (simp add: idx_def)
  have "length pq2 - 1 = n" using l2 by (simp add: n_def)
  with sw d(1) ix n have hp: "heapPop rs pq = Inr (hd pq, take n pq2)"
    by (simp add: heapPop_def Let_def)
  have "pq2 = take n pq2 @ [pq2 ! n]"
    using l2 n(1) by (metis Suc_diff_1 length_greater_0_conv assms(2) n_def take_Suc_conv_app_nth take_all order_refl)
  then have "mset pq2 = add_mset (pq2 ! n) (mset (take n pq2))"
    by (metis mset.simps(2) mset_append union_mset_add_mset_right add.right_neutral mset.simps(1))
  with d(2) ms1 last have "mset pq = add_mset (hd pq) (mset (take n pq2))" by simp
  with hp show ?thesis by blast
qed

lemma heapPush_spec:
  assumes "cmpOK rs (pq @ [x])"
  shows "\<exists>pq'. heapPush rs pq x = Inr pq' \<and> mset pq' = add_mset x (mset pq)"
proof -
  from up_spec [OF assms, of "length pq"]
  obtain pq' where "up rs (pq @ [x]) (length pq) = Inr pq'" "mset pq' = mset (pq @ [x])"
    by auto
  then show ?thesis by (simp add: heapPush_def)
qed

lemma heapInit_single: "heapInit rs [x] = Inr [x]"
  by (simp add: heapInit_def)


section \<open>Evaluating a node of the forest\<close>

lemma static_refl [simp]: "static f f"
  by (simp add: static_def)

lemma static_trans: "static f f' \<Longrightarrow> static f' f'' \<Longrightarrow> static f f''"
  by (simp add: static_def)

lemma static_queue [simp]: "static f (f' \<lparr> leafQueue := pq \<rparr>) = static f f'"
  by (simp add: static_def)

lemma trainCtx_static: "static f f' \<Longrightarrow> trainCtx f \<Longrightarrow> trainCtx f'"
  by (simp add: static_def trainCtx_def)

lemma memOK_frames: "memOK f mem \<Longrightarrow> x \<in> set mem \<Longrightarrow> frameOK f x"
proof -
  assume a: "memOK f mem" "x \<in> set mem"
  then have "set mem = set (map int [0 ..< nat (trainFrameCount f)])"
    by (metis memOK_def mset_eq_setD)
  with a(2) show ?thesis by (auto simp: frameOK_def)
qed

lemma treeState_queue [simp]: "treeState (f \<lparr> leafQueue := pq \<rparr>) t mem = treeState f t mem"
  by (simp add: treeState_def trainCtx_def memOK_def)

lemma derefNode_root: "roots f = [t] \<Longrightarrow> nodeAt t p \<noteq> NilNode \<Longrightarrow>
    derefNode (roots f) (Some (0, p)) = Inr (nodeAt t p)"
  by (simp add: derefNode_def)

lemma rank_childLeaf: "rank (childLeaf s l c m r) = (l, if c then 1 else 0, nat m)"
  by (simp add: rank_def childLeaf_def)

lemma precalcAt_spec:
  assumes ts: "treeState f t mem" and oo: "ordersOK order"
    and fresh: "isFresh (nodeAt t c)" and m: "0 \<le> misclassified (nodeAt t c)"
    and par: "c = [] \<or> \<not> isLeaf (nodeAt t (butlast c))"
  shows "\<exists>f' n' mem'. precalcAt order f 0 c = Inr f' \<and> treeState f' (putAt c n' t) mem'
           \<and> static f f' \<and> leafQueue f' = leafQueue f
           \<and> n' \<noteq> NilNode \<and> isLeaf n' \<and> rank n' = rank (nodeAt t c)
           \<and> misclassified n' = misclassified (nodeAt t c)
           \<and> classifyAsTrue n' = classifyAsTrue (nodeAt t c)
           \<and> (decideFeature n' \<noteq> - 1 \<longleftrightarrow> \<not> isFresh n')"
proof -
  define n where "n = nodeAt t c"
  define s where "s = inStart n"
  define l where "l = inLen n"
  from ts have ctx: "trainCtx f" and rt: "roots f = [t]" and im: "inputsMem f = [mem]"
    and mo: "memOK f mem" and w: "wfNode 0 (nat (trainFrameCount f)) t"
    by (simp_all add: treeState_def)
  from fresh have nn: "nodeAt t c \<noteq> NilNode" by (simp add: isFresh_def)
  from wfNode_sub [OF w nn] have wn: "wfNode s l n" and win0: "s + l \<le> nat (trainFrameCount f)"
    by (simp_all add: n_def s_def l_def)
  from wfNode_fresh [OF wn] fresh
  have nform: "n = childLeaf s l (classifyAsTrue n) (misclassified n) 0" by (simp add: n_def)
  from mo win0 have win: "s + l \<le> length mem" by (simp add: memOK_def)
  have fr: "\<And>x. x \<in> set (take l (drop s mem)) \<Longrightarrow> frameOK f x"
    using memOK_frames [OF mo] by (meson in_set_dropD in_set_takeD)
  from oo have ord: "set (order (0, c) (features f)) = set (features f)"
    by (metis ordersOK_def mset_eq_setD)
  from m have m': "0 \<le> misclassified n" by (simp add: n_def)
  note pr0 = precalc_result [of f s l mem "misclassified n" "order (0, c)" "classifyAsTrue n",
      OF ctx win fr m' ord]
  from pr0 [unfolded nform [symmetric]]
  obtain mem' n' where pr: "precalcBestSplit f (order (0, c)) mem n = Inr (mem', n')"
    and lm: "length mem' = length mem" "mset mem' = mset mem"
    and cases: "n' = n \<and> mem' = mem
               \<or> (\<exists>df dc sp tb a b.
                    n' = Node s l (classifyAsTrue n) (misclassified n) df dc (childLeaf s sp tb a 0)
                           (childLeaf (s + sp) (l - sp) (\<not> tb) b 0) True 0
                    \<and> df \<noteq> - 1 \<and> sp \<le> l \<and> a + b < upperBar (misclassified n)
                    \<and> (0 < a \<longrightarrow> ((sp, if tb then 1 else 0, nat a),
                                      (l, if classifyAsTrue n then 1 else 0, nat (misclassified n))) \<in> rankRel)
                    \<and> (0 < b \<longrightarrow> ((l - sp, if \<not> tb then 1 else 0, nat b),
                                      (l, if classifyAsTrue n then 1 else 0, nat (misclassified n))) \<in> rankRel))"
    by blast
  have n'props: "wfNode s l n' \<and> n' \<noteq> NilNode \<and> isLeaf n' \<and> rank n' = rank n
      \<and> misclassified n' = misclassified n \<and> classifyAsTrue n' = classifyAsTrue n
      \<and> (decideFeature n' \<noteq> - 1 \<longleftrightarrow> \<not> isFresh n')"
    using cases
  proof
    assume "n' = n \<and> mem' = mem"
    with wn fresh wfNode_fresh_feature [OF wn] show ?thesis by (auto simp: n_def)
  next
    assume "\<exists>df dc sp tb a b.
                    n' = Node s l (classifyAsTrue n) (misclassified n) df dc (childLeaf s sp tb a 0)
                           (childLeaf (s + sp) (l - sp) (\<not> tb) b 0) True 0
                    \<and> df \<noteq> - 1 \<and> sp \<le> l \<and> a + b < upperBar (misclassified n)
                    \<and> (0 < a \<longrightarrow> ((sp, if tb then 1 else 0, nat a),
                                      (l, if classifyAsTrue n then 1 else 0, nat (misclassified n))) \<in> rankRel)
                    \<and> (0 < b \<longrightarrow> ((l - sp, if \<not> tb then 1 else 0, nat b),
                                      (l, if classifyAsTrue n then 1 else 0, nat (misclassified n))) \<in> rankRel)"
    then obtain df dc sp tb a b where
      e: "n' = Node s l (classifyAsTrue n) (misclassified n) df dc (childLeaf s sp tb a 0)
                           (childLeaf (s + sp) (l - sp) (\<not> tb) b 0) True 0"
      and p: "df \<noteq> - 1" "sp \<le> l" "a + b < upperBar (misclassified n)"
        "0 < a \<longrightarrow> ((sp, if tb then 1 else 0, nat a),
                                      (l, if classifyAsTrue n then 1 else 0, nat (misclassified n))) \<in> rankRel"
        "0 < b \<longrightarrow> ((l - sp, if \<not> tb then 1 else 0, nat b),
                                      (l, if classifyAsTrue n then 1 else 0, nat (misclassified n))) \<in> rankRel"
      by blast
    have ch: "childLeaf s sp tb a 0 \<noteq> NilNode" "childLeaf (s + sp) (l - sp) (\<not> tb) b 0 \<noteq> NilNode"
      "inLen (childLeaf s sp tb a 0) = sp" "misclassified (childLeaf s sp tb a 0) = a"
      "misclassified (childLeaf (s + sp) (l - sp) (\<not> tb) b 0) = b"
      by (simp_all add: childLeaf_def)
    have "wfNode s l n'"
      unfolding e using p m' ch wfNode_childLeaf isFresh_childLeaf
      by (simp add: rank_childLeaf)
    moreover have "rank n' = rank n" using wfNode_fields [OF wn] by (simp add: e rank_def)
    moreover have "\<not> isFresh n'" using ch by (simp add: e isFresh_def)
    ultimately show ?thesis using p(1) by (simp add: e)
  qed
  define f' where "f' = f \<lparr> roots := (roots f)[0 := putAt c n' (roots f ! 0)],
                        inputsMem := (inputsMem f)[0 := mem'] \<rparr>"
  have dr: "derefNode (roots f) (Some (0, c)) = Inr n"
    using derefNode_root [OF rt nn] by (simp add: n_def)
  have pa: "precalcAt order f 0 c = Inr f'"
    unfolding precalcAt_def dr sum.case using pr im by (simp add: f'_def)
  have f'r: "roots f' = [putAt c n' t]" "inputsMem f' = [mem']" "leafQueue f' = leafQueue f"
    using rt im by (simp_all add: f'_def)
  have st: "static f f'" by (simp add: static_def f'_def)
  have mo': "memOK f' mem'" using mo lm st by (simp add: memOK_def static_def)
  have par': "isFresh n' \<or> \<not> isFresh (nodeAt t c) \<or> c = [] \<or> \<not> isLeaf (nodeAt t (butlast c))"
    using par by auto
  have "wfNode 0 (nat (trainFrameCount f)) (putAt c n' t)"
    using wfNode_putAt [OF w nn _ _ _ par'] n'props
    by (simp add: n_def s_def l_def)
  with st have w': "wfNode 0 (nat (trainFrameCount f')) (putAt c n' t)" by (simp add: static_def)
  have "treeState f' (putAt c n' t) mem'"
    using trainCtx_static [OF st ctx] f'r mo' w' by (simp add: treeState_def)
  with pa st f'r(3) n'props show ?thesis unfolding n_def by blast
qed


section \<open>Evaluating a child\<close>

lemma queued_fix:
  assumes "wfNode s l t" and "queued t r"
  shows "\<exists>v. fixOf [t] r = Inr v"
proof -
  from assms(2) obtain p where r: "r = Some (0, p)" and n: "nodeAt t p \<noteq> NilNode"
    "\<not> isFresh (nodeAt t p)" by (auto simp: queued_def)
  from wfNode_sub [OF assms(1) n(1)] wfNode_candidate [OF _ n(2)]
  have "lowerChild (nodeAt t p) \<noteq> NilNode" "highEqChild (nodeAt t p) \<noteq> NilNode" by blast+
  with r n(1) show ?thesis by (simp add: fixOf_def derefNode_def)
qed

lemma putAt_single_fields:
  assumes "n \<noteq> NilNode" and "n' \<noteq> NilNode"
  shows "putAt [b] n' n \<noteq> NilNode \<and> isLeaf (putAt [b] n' n) = isLeaf n
         \<and> rank (putAt [b] n' n) = rank n \<and> \<not> isFresh (putAt [b] n' n)"
  using assms by (cases n) (auto simp: rank_def isFresh_def)

lemma convertChild_spec:
  assumes ts: "treeState f t mem" and oo: "ordersOK order"
    and d: "distinct (leafQueue f)" and qd: "\<forall>r \<in> set (leafQueue f). queued t r"
    and p: "nodeAt t p \<noteq> NilNode" "\<not> isLeaf (nodeAt t p)"
    and ch: "isFresh (nodeAt t (p @ [b]))"
  shows "\<exists>f' t' mem'. convertChild order f 0 (p @ [b]) = Inr f' \<and> treeState f' t' mem'
           \<and> static f f' \<and> distinct (leafQueue f') \<and> (\<forall>r \<in> set (leafQueue f'). queued t' r)
           \<and> (\<forall>q. \<not> prefix (p @ [b]) q \<and> \<not> prefix q (p @ [b]) \<longrightarrow> nodeAt t' q = nodeAt t q)
           \<and> nodeAt t' p \<noteq> NilNode \<and> \<not> isLeaf (nodeAt t' p) \<and> rank (nodeAt t' p) = rank (nodeAt t p)
           \<and> \<not> isFresh (nodeAt t' p)
           \<and> misclassified t' = misclassified t \<and> classifyAsTrue t' = classifyAsTrue t
           \<and> (mset (leafQueue f') = mset (leafQueue f)
               \<or> mset (leafQueue f') = add_mset (Some (0, p @ [b])) (mset (leafQueue f))
                  \<and> 0 < misclassified (nodeAt t (p @ [b]))
                  \<and> rank (nodeAt t' (p @ [b])) = rank (nodeAt t (p @ [b])))"
proof -
  define c where "c = p @ [b]"
  define n where "n = nodeAt t c"
  from ts have rt: "roots f = [t]" and w: "wfNode 0 (nat (trainFrameCount f)) t"
    by (simp_all add: treeState_def)
  from ch have nn: "nodeAt t c \<noteq> NilNode" by (simp add: isFresh_def c_def)
  have dr: "derefNode (roots f) (Some (0, c)) = Inr n"
    using derefNode_root [OF rt nn] by (simp add: n_def)
  have pf: "\<not> isFresh (nodeAt t p)"
  proof
    assume "isFresh (nodeAt t p)"
    then have "nodeAt t (p @ [b]) = NilNode"
      using nodeAt_append [of t p "[b]"] by (simp add: nodeAt_fresh_below)
    with ch show False by (simp add: isFresh_def)
  qed
  have inc: "\<not> prefix c q \<and> \<not> prefix q c" if "queued t (Some (0, q))" for q
    using that fresh_child_incomparable [OF w p ch, of q] by (auto simp: queued_def c_def)
  show ?thesis
  proof (cases "0 < misclassified n")
    case False
    then have "convertChild order f 0 c = Inr f"
      by (simp add: convertChild_def dr)
    with ts d qd p pf show ?thesis unfolding c_def by (intro exI [of _ f] exI [of _ t] exI [of _ mem]) simp
  next
    case True
    have par: "c = [] \<or> \<not> isLeaf (nodeAt t (butlast c))" using p(2) by (simp add: c_def)
    from True have m0: "0 \<le> misclassified (nodeAt t c)" by (simp add: n_def)
    from precalcAt_spec [OF ts oo ch [folded c_def] m0 par]
    obtain f1 n' mem' where pa: "precalcAt order f 0 c = Inr f1"
      and ts1: "treeState f1 (putAt c n' t) mem'"
      and st1: "static f f1" and q1: "leafQueue f1 = leafQueue f"
      and n': "n' \<noteq> NilNode" "isLeaf n'" "rank n' = rank (nodeAt t c)"
        "misclassified n' = misclassified (nodeAt t c)"
        "decideFeature n' \<noteq> - 1 \<longleftrightarrow> \<not> isFresh n'"
      and n'c: "classifyAsTrue n' = classifyAsTrue (nodeAt t c)"
      by blast
    define t1 where "t1 = putAt c n' t"
    from ts1 have rt1: "roots f1 = [t1]" and w1: "wfNode 0 (nat (trainFrameCount f1)) t1"
      by (simp_all add: treeState_def t1_def)
    have at: "nodeAt t1 c = n'" unfolding t1_def using nn by (rule nodeAt_putAt_same)
    have rf: "misclassified t1 = misclassified t" "classifyAsTrue t1 = classifyAsTrue t"
      unfolding t1_def using putAt_root_fields [OF nn n'(4) n'c] by simp_all
    have other: "\<forall>q. \<not> prefix c q \<and> \<not> prefix q c \<longrightarrow> nodeAt t1 q = nodeAt t q"
      unfolding t1_def by (simp add: nodeAt_putAt_other)
    have qd1: "\<forall>r \<in> set (leafQueue f). queued t1 r"
    proof
      fix r assume r: "r \<in> set (leafQueue f)"
      with qd have qr: "queued t r" by simp
      then obtain q where q: "r = Some (0, q)" by (auto simp: queued_def)
      from inc [of q] qr q other have "nodeAt t1 q = nodeAt t q" by simp
      with qr q show "queued t1 r" by (simp add: queued_def)
    qed
    have par1: "nodeAt t1 p = putAt [b] n' (nodeAt t p)"
      unfolding t1_def c_def using p(1) by (rule nodeAt_putAt_prefix)
    from putAt_single_fields [OF p(1) n'(1), of b] par1 p(2)
    have pp: "nodeAt t1 p \<noteq> NilNode" "\<not> isLeaf (nodeAt t1 p)" "rank (nodeAt t1 p) = rank (nodeAt t p)"
      "\<not> isFresh (nodeAt t1 p)"
      by simp_all
    have cc: "convertChild order f 0 c =
        (if decideFeature n' \<noteq> - 1 then
           (case heapPush (roots f1) (leafQueue f1) (Some (0, c)) of
              Inl e \<Rightarrow> Inl e
            | Inr pq \<Rightarrow> Inr (f1 \<lparr> leafQueue := pq \<rparr>))
         else Inr f1)"
      using True by (simp add: convertChild_def dr pa rt1 at)
    show ?thesis
    proof (cases "decideFeature n' = - 1")
      case df: True
      with cc have "convertChild order f 0 c = Inr f1" by simp
      with ts1 st1 d qd1 q1 other pp rf show ?thesis
        unfolding c_def [symmetric] t1_def [symmetric]
        by (intro exI [of _ f1] exI [of _ t1] exI [of _ mem']) simp
    next
      case df: False
      with n' have nf: "\<not> isFresh n'" by simp
      from at n' nf have qc: "queued t1 (Some (0, c))" by (simp add: queued_def)
      have "cmpOK (roots f1) (leafQueue f1 @ [Some (0, c)])"
        unfolding cmpOK_def rt1 q1 using qd1 qc queued_fix [OF w1] by auto
      from heapPush_spec [OF this]
      obtain pq' where hp: "heapPush (roots f1) (leafQueue f1) (Some (0, c)) = Inr pq'"
        and ms: "mset pq' = add_mset (Some (0, c)) (mset (leafQueue f))"
        using q1 by auto
      from cc df hp have r: "convertChild order f 0 c = Inr (f1 \<lparr> leafQueue := pq' \<rparr>)" by simp
      have notin: "Some (0, c) \<notin> set (leafQueue f)"
      proof
        assume "Some (0, c) \<in> set (leafQueue f)"
        with qd have "queued t (Some (0, c))" by simp
        with ch show False by (simp add: queued_def c_def)
      qed
      from ms have "mset pq' = mset (Some (0, c) # leafQueue f)" by simp
      then have dq: "distinct pq'" using d notin
        by (metis distinct.simps(2) mset_eq_imp_distinct_iff)
      from ms have "set pq' = insert (Some (0, c)) (set (leafQueue f))"
        by (metis \<open>mset pq' = mset (Some (0, c) # leafQueue f)\<close> list.simps(15) mset_eq_setD)
      with qd1 qc have qd': "\<forall>r \<in> set pq'. queued t1 r" by simp
      have rk: "rank (nodeAt t1 c) = rank (nodeAt t c)" using at n'(3) by simp
      from r ts1 st1 dq qd' other pp ms True rk rf show ?thesis
        unfolding c_def [symmetric] t1_def [symmetric] n_def [symmetric]
        by (intro exI [of _ "f1 \<lparr> leafQueue := pq' \<rparr>"] exI [of _ t1] exI [of _ mem']) simp
    qed
  qed
qed


section \<open>Converting a leaf\<close>

lemma setLeaf_fields:
  assumes "n \<noteq> NilNode"
  shows "setLeaf v n \<noteq> NilNode" "isLeaf (setLeaf v n) = v" "rank (setLeaf v n) = rank n"
    "lowerChild (setLeaf v n) = lowerChild n" "highEqChild (setLeaf v n) = highEqChild n"
    "misclassified (setLeaf v n) = misclassified n" "classifyAsTrue (setLeaf v n) = classifyAsTrue n"
    "isFresh (setLeaf v n) = isFresh n" "inStart (setLeaf v n) = inStart n"
    "inLen (setLeaf v n) = inLen n"
  using assms by (cases n; simp add: setLeaf_def rank_def isFresh_def)+

lemma wfNode_setLeaf:
  assumes "wfNode s l n" and "\<not> isFresh n"
  shows "wfNode s l (setLeaf False n)"
  using assms by (cases n) (auto simp: setLeaf_def isFresh_def split: if_splits)

lemma convertToBranch_spec:
  assumes ts: "treeState f t mem" and oo: "ordersOK order"
    and d: "distinct (leafQueue f)" and qd: "\<forall>r \<in> set (leafQueue f). queued t r"
    and pn: "Some (0, p) \<notin> set (leafQueue f)"
    and n: "nodeAt t p \<noteq> NilNode" "isLeaf (nodeAt t p)" "\<not> isFresh (nodeAt t p)"
  shows "\<exists>f' t' mem'. convertToBranch order f 0 p = Inr f' \<and> treeState f' t' mem'
           \<and> static f f' \<and> distinct (leafQueue f') \<and> (\<forall>r \<in> set (leafQueue f'). queued t' r)
           \<and> nodeAt t' p \<noteq> NilNode \<and> \<not> isLeaf (nodeAt t' p)
           \<and> misclassified t' = misclassified t \<and> classifyAsTrue t' = classifyAsTrue t
           \<and> (\<forall>q. \<not> prefix p q \<and> \<not> prefix q p \<longrightarrow> nodeAt t' q = nodeAt t q)
           \<and> (\<exists>K. image_mset (refRank t') (mset (leafQueue f'))
                    = image_mset (refRank t) (mset (leafQueue f)) + K
                  \<and> (\<forall>k \<in># K. (k, rank (nodeAt t p)) \<in> rankRel))"
proof -
  define n where "n = nodeAt t p"
  from ts have ctx: "trainCtx f" and rt: "roots f = [t]" and im: "inputsMem f = [mem]"
    and mo: "memOK f mem" and w: "wfNode 0 (nat (trainFrameCount f)) t"
    by (simp_all add: treeState_def)
  from assms(6-8) have nn: "n \<noteq> NilNode" "isLeaf n" "\<not> isFresh n" by (simp_all add: n_def)
  from wfNode_sub [OF w assms(6)] have wn: "wfNode (inStart n) (inLen n) n" by (simp add: n_def)
  note cand = wfNode_candidate [OF wn nn(3)]
  from cand nn(2) have fch: "isFresh (lowerChild n)" "isFresh (highEqChild n)" by simp_all
  define t0 where "t0 = putAt p (setLeaf False n) t"
  define f0 where "f0 = f \<lparr> roots := (roots f)[0 := putAt p (setLeaf False n) (roots f ! 0)] \<rparr>"
  have dr: "derefNode (roots f) (Some (0, p)) = Inr n"
    using derefNode_root [OF rt assms(6)] by (simp add: n_def)
  have cb: "convertToBranch order f 0 p =
      (case convertChild order f0 0 (p @ [False]) of
         Inl e \<Rightarrow> Inl e
       | Inr f1 \<Rightarrow> convertChild order f1 0 (p @ [True]))"
    by (simp add: convertToBranch_def dr f0_def Let_def)
  have st0: "static f f0" by (simp add: static_def f0_def)
  have w0: "wfNode 0 (nat (trainFrameCount f)) t0"
    unfolding t0_def
    using wfNode_putAt [OF w assms(6), of "setLeaf False n"] wfNode_setLeaf [OF wn nn(3)]
      setLeaf_fields [OF nn(1), of False] nn(3)
    by (simp add: n_def [symmetric])
  have ts0: "treeState f0 t0 mem"
    using ctx rt im mo w0 by (simp add: treeState_def f0_def t0_def trainCtx_def memOK_def)
  have q0: "leafQueue f0 = leafQueue f" by (simp add: f0_def)
  have at0: "nodeAt t0 p = setLeaf False n"
    unfolding t0_def using assms(6) by (rule nodeAt_putAt_same)
  have same0: "nodeAt t0 q = nodeAt t q" if "queued t (Some (0, q))" "q \<noteq> p" for q
  proof -
    from that have qq: "nodeAt t q \<noteq> NilNode" "isLeaf (nodeAt t q)" "\<not> isFresh (nodeAt t q)"
      by (simp_all add: queued_def)
    from leaves_incomparable [OF w assms(6,7,8) qq(1,3)] that(2) have "\<not> prefix p q" by auto
    moreover from leaves_incomparable [OF w qq assms(6,8) that(2)] have "\<not> prefix q p" .
    ultimately show ?thesis unfolding t0_def by (rule nodeAt_putAt_other)
  qed
  have qd0: "\<forall>r \<in> set (leafQueue f0). queued t0 r"
  proof
    fix r assume r: "r \<in> set (leafQueue f0)"
    with qd q0 have qr: "queued t r" by simp
    then obtain q where q: "r = Some (0, q)" by (auto simp: queued_def)
    with r pn q0 have "q \<noteq> p" by auto
    from same0 [OF qr [unfolded q] this] qr q show "queued t0 r" by (simp add: queued_def)
  qed
  have rk0: "refRank t0 r = refRank t r" if "r \<in> set (leafQueue f)" for r
  proof -
    from that qd have qr: "queued t r" by simp
    then obtain q where q: "r = Some (0, q)" by (auto simp: queued_def)
    with that pn have "q \<noteq> p" by auto
    from same0 [OF qr [unfolded q] this] q show ?thesis by (simp add: refRank_def)
  qed
  have p0: "nodeAt t0 p \<noteq> NilNode" "\<not> isLeaf (nodeAt t0 p)"
    using at0 setLeaf_fields [OF nn(1), of False] by simp_all
  have ch0: "nodeAt t0 (p @ [b]) = (if b then highEqChild n else lowerChild n)" for b
    using at0 setLeaf_fields [OF nn(1), of False] by (simp add: nodeAt_snoc)
  have cht: "nodeAt t (p @ [b]) = (if b then highEqChild n else lowerChild n)" for b
    using nn(1) by (simp add: nodeAt_snoc n_def)
  have fr0: "isFresh (nodeAt t0 (p @ [b]))" for b using ch0 [of b] fch by simp
  have d0: "distinct (leafQueue f0)" using d q0 by simp
  \<comment> \<open>the lower child\<close>
  from convertChild_spec [OF ts0 oo d0 qd0 p0 fr0 [of False]]
  obtain f1 t1 mem1 where c1: "convertChild order f0 0 (p @ [False]) = Inr f1"
    and ts1: "treeState f1 t1 mem1" and st1: "static f0 f1"
    and d1: "distinct (leafQueue f1)" and qd1: "\<forall>r \<in> set (leafQueue f1). queued t1 r"
    and o1: "\<forall>q. \<not> prefix (p @ [False]) q \<and> \<not> prefix q (p @ [False]) \<longrightarrow> nodeAt t1 q = nodeAt t0 q"
    and p1: "nodeAt t1 p \<noteq> NilNode" "\<not> isLeaf (nodeAt t1 p)"
    and rf1: "misclassified t1 = misclassified t0" "classifyAsTrue t1 = classifyAsTrue t0"
    and ms1: "mset (leafQueue f1) = mset (leafQueue f0)
               \<or> mset (leafQueue f1) = add_mset (Some (0, p @ [False])) (mset (leafQueue f0))
                  \<and> 0 < misclassified (nodeAt t0 (p @ [False]))
                  \<and> rank (nodeAt t1 (p @ [False])) = rank (nodeAt t0 (p @ [False]))"
    by blast
  from ts1 have w1: "wfNode 0 (nat (trainFrameCount f1)) t1" by (simp add: treeState_def)
  have "nodeAt t1 (p @ [True]) = nodeAt t0 (p @ [True])" using o1 by simp
  with fr0 [of True] have fr1: "isFresh (nodeAt t1 (p @ [True]))" by simp
  \<comment> \<open>the upper child\<close>
  from convertChild_spec [OF ts1 oo d1 qd1 p1 fr1]
  obtain f2 t2 mem2 where c2: "convertChild order f1 0 (p @ [True]) = Inr f2"
    and ts2: "treeState f2 t2 mem2" and st2: "static f1 f2"
    and d2: "distinct (leafQueue f2)" and qd2: "\<forall>r \<in> set (leafQueue f2). queued t2 r"
    and o2: "\<forall>q. \<not> prefix (p @ [True]) q \<and> \<not> prefix q (p @ [True]) \<longrightarrow> nodeAt t2 q = nodeAt t1 q"
    and p2: "nodeAt t2 p \<noteq> NilNode" "\<not> isLeaf (nodeAt t2 p)"
    and rf2: "misclassified t2 = misclassified t1" "classifyAsTrue t2 = classifyAsTrue t1"
    and ms2: "mset (leafQueue f2) = mset (leafQueue f1)
               \<or> mset (leafQueue f2) = add_mset (Some (0, p @ [True])) (mset (leafQueue f1))
                  \<and> 0 < misclassified (nodeAt t1 (p @ [True]))
                  \<and> rank (nodeAt t2 (p @ [True])) = rank (nodeAt t1 (p @ [True]))"
    by blast
  from cb c1 c2 have r: "convertToBranch order f 0 p = Inr f2" by simp
  have st: "static f f2" using st0 st1 st2 by (metis static_trans)
  \<comment> \<open>ranks of the references that were queued before\<close>
  have rk1: "refRank t1 r = refRank t0 r" if "r \<in> set (leafQueue f0)" for r
  proof -
    from that qd0 have qr: "queued t0 r" by simp
    then obtain q where q: "r = Some (0, q)" "nodeAt t0 q \<noteq> NilNode" "isLeaf (nodeAt t0 q)"
      "\<not> isFresh (nodeAt t0 q)" by (auto simp: queued_def)
    from fresh_child_incomparable [OF w0 p0 fr0 [of False] q(2,3,4)] o1
    have "nodeAt t1 q = nodeAt t0 q" by simp
    with q(1) show ?thesis by (simp add: refRank_def)
  qed
  have rk2: "refRank t2 r = refRank t1 r" if "r \<in> set (leafQueue f1)" for r
  proof -
    from that qd1 have qr: "queued t1 r" by simp
    then obtain q where q: "r = Some (0, q)" "nodeAt t1 q \<noteq> NilNode" "isLeaf (nodeAt t1 q)"
      "\<not> isFresh (nodeAt t1 q)" by (auto simp: queued_def)
    from fresh_child_incomparable [OF w1 p1 fr1 q(2,3,4)] o2
    have "nodeAt t2 q = nodeAt t1 q" by simp
    with q(1) show ?thesis by (simp add: refRank_def)
  qed
  define R where "R = image_mset (refRank t) (mset (leafQueue f))"
  define rn where "rn = rank (nodeAt t p)"
  have lowr: "0 < misclassified (nodeAt t0 (p @ [False])) \<Longrightarrow>
      (rank (nodeAt t0 (p @ [False])), rn) \<in> rankRel"
    using cand ch0 [of False] by (simp add: rn_def n_def)
  have highr: "0 < misclassified (nodeAt t0 (p @ [True])) \<Longrightarrow>
      (rank (nodeAt t0 (p @ [True])), rn) \<in> rankRel"
    using cand ch0 [of True] by (simp add: rn_def n_def)
  have R0: "image_mset (refRank t0) (mset (leafQueue f0)) = R"
    unfolding R_def q0 by (rule image_mset_cong) (simp add: rk0)
  have R1a: "image_mset (refRank t1) (mset (leafQueue f0)) = R"
    unfolding R0 [symmetric] by (rule image_mset_cong) (simp add: rk1)
  have e1: "\<exists>K1. image_mset (refRank t1) (mset (leafQueue f1)) = R + K1
      \<and> (\<forall>k \<in># K1. (k, rn) \<in> rankRel)"
    using ms1
  proof
    assume "mset (leafQueue f1) = mset (leafQueue f0)"
    with R1a have "image_mset (refRank t1) (mset (leafQueue f1)) = R + {#}" by simp
    then show ?thesis by (metis empty_iff set_mset_empty)
  next
    assume a: "mset (leafQueue f1) = add_mset (Some (0, p @ [False])) (mset (leafQueue f0))
                  \<and> 0 < misclassified (nodeAt t0 (p @ [False]))
                  \<and> rank (nodeAt t1 (p @ [False])) = rank (nodeAt t0 (p @ [False]))"
    then have "image_mset (refRank t1) (mset (leafQueue f1))
        = R + {# rank (nodeAt t0 (p @ [False])) #}"
      using R1a by (simp add: refRank_def)
    moreover from a lowr have "\<forall>k \<in># {# rank (nodeAt t0 (p @ [False])) #}. (k, rn) \<in> rankRel"
      by simp
    ultimately show ?thesis by blast
  qed
  then obtain K1 where K1: "image_mset (refRank t1) (mset (leafQueue f1)) = R + K1"
    "\<forall>k \<in># K1. (k, rn) \<in> rankRel" by blast
  have R2a: "image_mset (refRank t2) (mset (leafQueue f1)) = R + K1"
    unfolding K1(1) [symmetric] by (rule image_mset_cong) (simp add: rk2)
  have t1t0: "nodeAt t1 (p @ [True]) = nodeAt t0 (p @ [True])" using o1 by simp
  have e2: "\<exists>K. image_mset (refRank t2) (mset (leafQueue f2)) = R + K
      \<and> (\<forall>k \<in># K. (k, rn) \<in> rankRel)"
    using ms2
  proof
    assume "mset (leafQueue f2) = mset (leafQueue f1)"
    with R2a K1(2) show ?thesis by auto
  next
    assume a: "mset (leafQueue f2) = add_mset (Some (0, p @ [True])) (mset (leafQueue f1))
                  \<and> 0 < misclassified (nodeAt t1 (p @ [True]))
                  \<and> rank (nodeAt t2 (p @ [True])) = rank (nodeAt t1 (p @ [True]))"
    then have "image_mset (refRank t2) (mset (leafQueue f2))
        = R + (K1 + {# rank (nodeAt t0 (p @ [True])) #})"
      using R2a t1t0 by (simp add: refRank_def)
    moreover from a highr t1t0 K1(2)
    have "\<forall>k \<in># K1 + {# rank (nodeAt t0 (p @ [True])) #}. (k, rn) \<in> rankRel"
      by auto
    ultimately show ?thesis by blast
  qed
  have rf0: "misclassified t0 = misclassified t" "classifyAsTrue t0 = classifyAsTrue t"
    unfolding t0_def using putAt_root_fields [OF assms(6), of "setLeaf False n"]
      setLeaf_fields [OF nn(1), of False] by (simp_all add: n_def)
  have rf: "misclassified t2 = misclassified t" "classifyAsTrue t2 = classifyAsTrue t"
    using rf0 rf1 rf2 by simp_all
  have frame: "\<forall>q. \<not> prefix p q \<and> \<not> prefix q p \<longrightarrow> nodeAt t2 q = nodeAt t q"
  proof (intro allI impI)
    fix q assume a: "\<not> prefix p q \<and> \<not> prefix q p"
    then have i: "\<not> prefix (p @ [b]) q \<and> \<not> prefix q (p @ [b])" for b
      by (auto simp: prefix_snoc dest: append_prefixD)
    from a have "nodeAt t0 q = nodeAt t q" unfolding t0_def by (simp add: nodeAt_putAt_other)
    with o1 o2 i show "nodeAt t2 q = nodeAt t q" by simp
  qed
  from r ts2 st d2 qd2 p2 e2 rf frame show ?thesis unfolding R_def rn_def by blast
qed


section \<open>One iteration of the growth loop\<close>

lemma rootKept_refl [simp]: "rootKept f f"
  by (simp add: rootKept_def)

lemma rootKept_trans: "rootKept f f' \<Longrightarrow> rootKept f' f'' \<Longrightarrow> rootKept f f''"
  by (simp add: rootKept_def)

lemma InvQ_Inv: "InvQ f \<Longrightarrow> Inv f"
  by (simp add: Inv_def)

lemma settled_incomparable:
  assumes w: "wfNode s l t" and st: "settled t q"
    and p: "nodeAt t p \<noteq> NilNode" "isLeaf (nodeAt t p)" "\<not> isFresh (nodeAt t p)"
  shows "\<not> prefix p q \<and> \<not> prefix q p"
proof -
  from st obtain q' b where q: "q = q' @ [b]" by (auto simp: settled_def) (metis append_butlast_last_id)
  with st have "nodeAt t q' \<noteq> NilNode" "\<not> isLeaf (nodeAt t q')" "isFresh (nodeAt t (q' @ [b]))"
    by (simp_all add: settled_def)
  from fresh_child_incomparable [OF w this p] q show ?thesis by simp
qed

lemma growBody_spec:
  assumes inv: "Inv f" and oo: "ordersOK order" and ne: "leafQueue f \<noteq> []"
  shows "\<exists>c f'. growBody order f = Inr (c, f') \<and> InvQ f' \<and> static f f' \<and> rootKept f f'
           \<and> (c \<longrightarrow> (queueRanks f', queueRanks f) \<in> mult rankRel)
           \<and> (\<forall>q. settled (hd (roots f)) q \<longrightarrow>
                  settled (hd (roots f')) q \<and> nodeAt (hd (roots f')) q = nodeAt (hd (roots f)) q)"
  using inv unfolding Inv_def
proof
  assume "\<exists>t mem. treeState f t mem \<and> leafQueue f = [Some (0, [])] \<and> isFresh t"
  then obtain t mem where ts: "treeState f t mem" and q: "leafQueue f = [Some (0, [])]"
    and fr: "isFresh t" by blast
  from ts have rt: "roots f = [t]" and w: "wfNode 0 (nat (trainFrameCount f)) t"
    by (simp_all add: treeState_def)
  from heapPop_spec [of "leafQueue f" "roots f"] q
  obtain pq where hp: "heapPop (roots f) (leafQueue f) = Inr (Some (0, []), pq)"
    and ms: "mset (leafQueue f) = add_mset (Some (0, [])) (mset pq)" by auto
  from ms q have pq: "pq = []" by simp
  from fr have tn: "nodeAt t [] \<noteq> NilNode" by (simp add: isFresh_def)
  have dr: "derefNode (roots f) (Some (0, [])) = Inr t"
    using derefNode_root [OF rt tn] by simp
  from wfNode_fresh_feature [OF w fr] have "decideFeature t = - 1" by simp
  with hp dr pq have gb: "growBody order f = Inr (False, f \<lparr> leafQueue := [] \<rparr>)"
    by (simp add: growBody_def)
  have "InvQ (f \<lparr> leafQueue := [] \<rparr>)" using ts by (auto simp: InvQ_def)
  moreover have "rootKept f (f \<lparr> leafQueue := [] \<rparr>)" by (simp add: rootKept_def)
  ultimately show ?thesis using gb by (intro exI [of _ False] exI [of _ "f \<lparr> leafQueue := [] \<rparr>"]) simp
next
  assume "InvQ f"
  then obtain t mem where ts: "treeState f t mem" and d: "distinct (leafQueue f)"
    and qd: "\<forall>r \<in> set (leafQueue f). queued t r" by (auto simp: InvQ_def)
  from ts have rt: "roots f = [t]" and w: "wfNode 0 (nat (trainFrameCount f)) t"
    by (simp_all add: treeState_def)
  have "cmpOK (roots f) (leafQueue f)"
    unfolding cmpOK_def rt using qd queued_fix [OF w] by auto
  from heapPop_spec [of "leafQueue f" "roots f"] this ne
  obtain pq where hp: "heapPop (roots f) (leafQueue f) = Inr (hd (leafQueue f), pq)"
    and ms: "mset (leafQueue f) = add_mset (hd (leafQueue f)) (mset pq)" by auto
  from ne qd have "queued t (hd (leafQueue f))" by simp
  then obtain p where hd: "hd (leafQueue f) = Some (0, p)" and n: "nodeAt t p \<noteq> NilNode"
    "isLeaf (nodeAt t p)" "\<not> isFresh (nodeAt t p)" by (auto simp: queued_def)
  define n where "n = nodeAt t p"
  from ms have ms': "mset (leafQueue f) = mset (Some (0, p) # pq)" by (simp add: hd)
  with d have dd: "distinct (Some (0, p) # pq)" by (metis mset_eq_imp_distinct_iff)
  from ms' have sq: "set (leafQueue f) = insert (Some (0, p)) (set pq)"
    by (metis list.simps(15) mset_eq_setD)
  from dd have dpq: "distinct pq" and pn: "Some (0, p) \<notin> set pq" by simp_all
  from sq qd have qpq: "\<forall>r \<in> set pq. queued t r" by simp
  have dr: "derefNode (roots f) (Some (0, p)) = Inr n"
    using derefNode_root [OF rt n(1)] by (simp add: n_def)
  from wfNode_sub [OF w n(1)] wfNode_candidate [OF _ n(3)]
  have df: "decideFeature n \<noteq> - 1" unfolding n_def by blast
  define fq where "fq = f \<lparr> leafQueue := pq \<rparr>"
  have gb: "growBody order f =
      (if misclassified n < minMisclassified f then Inr (False, fq)
       else (case convertToBranch order fq 0 p of
               Inl e \<Rightarrow> Inl e
             | Inr f2 \<Rightarrow> Inr (True, f2)))"
    using df by (simp add: growBody_def hp hd dr fq_def)
  have tsq: "treeState fq t mem" using ts by (simp add: fq_def)
  have qq: "leafQueue fq = pq" "roots fq = [t]" using rt by (simp_all add: fq_def)
  have stq: "static f fq" by (simp add: fq_def)
  show ?thesis
  proof (cases "misclassified n < minMisclassified f")
    case True
    with gb have "growBody order f = Inr (False, fq)" by simp
    moreover have "InvQ fq" using tsq dpq qpq qq by (auto simp: InvQ_def)
    moreover have "rootKept f fq" by (simp add: rootKept_def fq_def)
    moreover have "hd (roots fq) = hd (roots f)" by (simp add: fq_def)
    ultimately show ?thesis using stq by (intro exI [of _ False] exI [of _ fq]) simp
  next
    case False
    from convertToBranch_spec [OF tsq oo, of p] dpq qpq pn n qq
    obtain f2 t2 mem2 where cb: "convertToBranch order fq 0 p = Inr f2"
      and ts2: "treeState f2 t2 mem2" and st2: "static fq f2"
      and d2: "distinct (leafQueue f2)" and qd2: "\<forall>r \<in> set (leafQueue f2). queued t2 r"
      and pne: "nodeAt t2 p \<noteq> NilNode" and pnl: "\<not> isLeaf (nodeAt t2 p)"
      and rf: "misclassified t2 = misclassified t" "classifyAsTrue t2 = classifyAsTrue t"
      and frame: "\<forall>q. \<not> prefix p q \<and> \<not> prefix q p \<longrightarrow> nodeAt t2 q = nodeAt t q"
      and K: "\<exists>K. image_mset (refRank t2) (mset (leafQueue f2))
                    = image_mset (refRank t) (mset pq) + K
                  \<and> (\<forall>k \<in># K. (k, rank (nodeAt t p)) \<in> rankRel)"
      by auto
    from K obtain K where K1: "image_mset (refRank t2) (mset (leafQueue f2))
                    = image_mset (refRank t) (mset pq) + K"
      and K2: "\<forall>k \<in># K. (k, rank (nodeAt t p)) \<in> rankRel" by blast
    from ts2 have rt2: "roots f2 = [t2]" by (simp add: treeState_def)
    from gb False cb have g: "growBody order f = Inr (True, f2)" by simp
    have i2: "InvQ f2" using ts2 d2 qd2 by (auto simp: InvQ_def)
    have s2: "static f f2" using stq st2 by (rule static_trans)
    have rk: "rootKept f f2" using rf rt rt2 by (simp add: rootKept_def)
    define I where "I = image_mset (refRank t) (mset pq)"
    have q2: "queueRanks f2 = I + K" by (simp add: queueRanks_def rt2 K1 I_def)
    have q1: "queueRanks f = I + {# rank (nodeAt t p) #}"
      by (simp add: queueRanks_def rt ms' I_def refRank_def)
    have "(I + K, I + {# rank (nodeAt t p) #}) \<in> mult rankRel"
      by (rule one_step_implies_mult) (use K2 in auto)
    with q1 q2 have dec: "(queueRanks f2, queueRanks f) \<in> mult rankRel" by simp
    have keep: "settled t2 q \<and> nodeAt t2 q = nodeAt t q" if "settled t q" for q
    proof -
      from settled_incomparable [OF w that n] frame have e: "nodeAt t2 q = nodeAt t q" by simp
      from that obtain q' b where q: "q = q' @ [b]" "nodeAt t q' \<noteq> NilNode" "\<not> isLeaf (nodeAt t q')"
        by (auto simp: settled_def) (metis append_butlast_last_id butlast_snoc)
      have "nodeAt t2 q' \<noteq> NilNode \<and> \<not> isLeaf (nodeAt t2 q')"
      proof (cases "prefix q' p")
        case False
        moreover have "\<not> prefix p q'"
        proof
          assume "prefix p q'"
          then have "prefix p q" using q(1) by (auto simp: prefix_snoc)
          with settled_incomparable [OF w that n] show False by simp
        qed
        ultimately have "nodeAt t2 q' = nodeAt t q'" using frame by simp
        with q show ?thesis by simp
      next
        case True
        then obtain r where pr: "p = q' @ r" by (auto simp: prefix_def)
        from ts2 have w2: "wfNode 0 (nat (trainFrameCount f2)) t2" by (simp add: treeState_def)
        have e2: "nodeAt t2 q \<noteq> NilNode" using e that by (simp add: settled_def isFresh_def)
        then have a: "nodeAt t2 q' \<noteq> NilNode" using q(1) by (auto simp: nodeAt_snoc split: if_splits)
        have "\<not> isLeaf (nodeAt t2 q')"
        proof
          assume lf: "isLeaf (nodeAt t2 q')"
          have nf: "\<not> isFresh (nodeAt t2 q')"
            using e2 q(1) nodeAt_append [of t2 q' "[b]"] by (auto simp: nodeAt_fresh_below)
          \<comment> \<open>a leaf with children has fresh children, so \<open>p\<close> cannot lie below \<open>q'\<close>\<close>
          from wfNode_sub [OF w2 a] wfNode_candidate [OF _ nf] lf
          have fc: "isFresh (lowerChild (nodeAt t2 q'))" "isFresh (highEqChild (nodeAt t2 q'))"
            by blast+
          show False
          proof (cases r)
            case Nil
            with pr pnl lf show False by simp
          next
            case (Cons x r')
            have "nodeAt t2 (q' @ [x]) = (if x then highEqChild (nodeAt t2 q') else lowerChild (nodeAt t2 q'))"
              using a by (simp add: nodeAt_snoc)
            with fc have fx: "isFresh (nodeAt t2 (q' @ [x]))" by simp
            have "nodeAt t2 p = nodeAt (nodeAt t2 (q' @ [x])) r'"
              using pr Cons nodeAt_append [of t2 "q' @ [x]" r'] by simp
            with fx pne pnl wfNode_fresh_feature [OF wfNode_sub [THEN conjunct1, OF w2, of "q' @ [x]"]]
            show False by (cases r') (auto simp: nodeAt_fresh_below isFresh_def)
          qed
        qed
        with a show ?thesis by simp
      qed
      with e that q(1) show ?thesis by (simp add: settled_def)
    qed
    from g i2 s2 rk dec keep rt rt2 show ?thesis
      by (intro exI [of _ True] exI [of _ f2]) simp
  qed
qed


section \<open>The start of training\<close>

lemma frameLabels_ok:
  assumes "0 \<le> frameCount" and "1 \<le> fs"
    and "0 < frameCount \<Longrightarrow> frameCount + fs - 1 \<le> int (length expected)"
  shows "frameLabels fs frameCount expected =
           Inr (map (\<lambda>i. expected ! nat (int i + fs - 1)) [0 ..< nat frameCount])"
  unfolding frameLabels_def
proof (rule mapE_total)
  fix i assume i: "i \<in> set [0 ..< nat frameCount]"
  then have "0 < frameCount" by auto
  from assms(3) [OF this] i assms(1,2)
  have "0 \<le> int i + fs - 1" "int i + fs - 1 < int (length expected)" by auto
  then show "idx expected (int i + fs - 1) = Inr (expected ! nat (int i + fs - 1))"
    by (rule idx_in_range)
qed

lemma trainInit_unfold:
  assumes nf: "NewForest fs tc mm = Inr f"
    and fs: "1 \<le> fs" "fs \<le> int (length samples) + 1"
    and len: "fs \<le> int (length samples) \<Longrightarrow> length samples \<le> length expected"
  shows "trainInit order f samples expected =
     (let frameCount = int (length samples) - fs + 1;
          ones = int (length (filter (\<lambda>i. expected ! nat (int i + fs - 1) = 1) [0 ..< nat frameCount]));
          rootNode = Node 0 (nat frameCount) (ones > frameCount - ones) (min ones (frameCount - ones))
                   (- 1) (- 1) NilNode NilNode True 0
      in case precalcAt order (rootState f samples expected rootNode) 0 [] of
           Inl e \<Rightarrow> Inl e
         | Inr f2 \<Rightarrow>
             (case heapInit (roots f2) (leafQueue f2) of
                Inl e \<Rightarrow> Inl e
              | Inr pq \<Rightarrow> Inr (f2 \<lparr> leafQueue := pq \<rparr>)))"
proof -
  from nf have tc: "tc = 1" by (auto simp: NewForest_def Let_def split: if_splits)
  from nf tc fs have f: "frameSize f = fs" "treeCount f = 1" "roots f = [NilNode]"
    "leafQueue f = [None]" "inputsMem f = [[]]"
    by (auto simp: NewForest_def Let_def split: if_splits)
  define fc where "fc = int (length samples) - fs + 1"
  define ones where
    "ones = int (length (filter (\<lambda>i. expected ! nat (int i + fs - 1) = 1) [0 ..< nat fc]))"
  from fs have fc: "0 \<le> fc" by (simp add: fc_def)
  define f0 where "f0 = f \<lparr> trainSamples := samples, trainExpected := expected,
                   trainFrameCount := int (length samples) - frameSize f + 1 \<rparr>"
  have f0: "frameSize f0 = fs" "treeCount f0 = 1" "trainFrameCount f0 = fc"
    "roots f0 = [NilNode]" "leafQueue f0 = [None]" "inputsMem f0 = [[]]"
    by (simp_all add: f f0_def fc_def)
  have "frameLabels fs fc expected =
           Inr (map (\<lambda>i. expected ! nat (int i + fs - 1)) [0 ..< nat fc])"
    using fc fs len by (intro frameLabels_ok) (auto simp: fc_def)
  then have lab: "frameLabels (frameSize f0) (trainFrameCount f0) expected =
           Inr (map (\<lambda>i. expected ! nat (int i + fs - 1)) [0 ..< nat fc])"
     "frameLabels fs fc expected =
           Inr (map (\<lambda>i. expected ! nat (int i + fs - 1)) [0 ..< nat fc])"
    by (simp_all only: f0)
  have filt: "int (length (filter (\<lambda>l. l = 1)
       (map (\<lambda>i. expected ! nat (int i + fs - 1)) [0 ..< nat fc]))) = ones"
    by (simp add: filter_map comp_def ones_def)
  have m: "(if ones > fc - ones then fc - ones else ones) = min ones (fc - ones)"
    by (simp add: min_def)
  have up: "[0 ..< nat (treeCount f0)] = [0]" by (simp add: f0)
  have rs: "f0 \<lparr> roots := (roots f0)[0 := r],
                leafQueue := (leafQueue f0)[0 := Some (0, [])],
                inputsMem := (inputsMem f0)[0 := map int [0 ..< nat (trainFrameCount f0)]] \<rparr>
            = rootState f samples expected r" for r
    by (simp add: rootState_def f0_def f)
  have ir: "initRoots order f0 b m [0 ..< nat (treeCount f0)] =
      (case precalcAt order (rootState f samples expected
              (Node 0 (nat fc) b m (- 1) (- 1) NilNode NilNode True 0)) 0 [] of
         Inl e \<Rightarrow> Inl e | Inr f1 \<Rightarrow> Inr f1)" for b m
  proof -
    have c: "\<not> trainFrameCount f0 < 0" "0 < length (roots f0)" "0 < length (leafQueue f0)"
      using fc by (simp_all add: f0)
    show ?thesis
      unfolding up initRoots.simps
      apply (simp only: c rs if_False if_True not_True_eq_False not_False_eq_True)
      apply (simp only: f0 of_nat_0 int_ops(1))
      done
  qed
  have "trainInit order f samples expected =
      (case initRoots order f0 (ones > fc - ones) (min ones (fc - ones)) [0 ..< nat (treeCount f0)] of
         Inl e \<Rightarrow> Inl e
       | Inr f1 \<Rightarrow>
           (case heapInit (roots f1) (leafQueue f1) of
              Inl e \<Rightarrow> Inl e
            | Inr pq \<Rightarrow> Inr (f1 \<lparr> leafQueue := pq \<rparr>)))"
    unfolding trainInit_def Let_def f0_def [symmetric]
    by (simp only: lab sum.case filt m f0)
  also have "\<dots> = (case precalcAt order (rootState f samples expected
              (Node 0 (nat fc) (ones > fc - ones) (min ones (fc - ones)) (- 1) (- 1) NilNode NilNode True 0)) 0 [] of
           Inl e \<Rightarrow> Inl e
         | Inr f2 \<Rightarrow>
             (case heapInit (roots f2) (leafQueue f2) of
                Inl e \<Rightarrow> Inl e
              | Inr pq \<Rightarrow> Inr (f2 \<lparr> leafQueue := pq \<rparr>)))"
    unfolding ir by (cases "precalcAt order (rootState f samples expected
              (Node 0 (nat fc) (ones > fc - ones) (min ones (fc - ones)) (- 1) (- 1) NilNode NilNode True 0)) 0 []")
       (simp_all only: sum.case)
  finally show ?thesis by (simp only: Let_def fc_def ones_def)
qed


section \<open>The growth loop ends\<close>

lemma grow_total:
  assumes oo: "ordersOK order" and inv: "Inv f"
  shows "\<exists>f'. grow order f = Some (Inr f') \<and> Inv f' \<and> static f f' \<and> rootKept f f'
           \<and> (\<exists>k s. growSteps order k f = Inr s \<and> exitsAt order s f')"
proof -
  have "\<And>f. queueRanks f = M \<Longrightarrow> Inv f \<Longrightarrow>
      \<exists>f'. grow order f = Some (Inr f') \<and> Inv f' \<and> static f f' \<and> rootKept f f'
           \<and> (\<exists>k s. growSteps order k f = Inr s \<and> exitsAt order s f')" for M
  proof (induction M rule: wf_induct_rule [OF wf_mult [OF wf_rankRel]])
    case (1 M)
    show ?case
    proof (cases "leafQueue f = []")
      case True
      then have "grow order f = Some (Inr f)" by (subst grow.simps) simp
      moreover have "growSteps order 0 f = Inr f \<and> exitsAt order f f"
        using True by (simp add: exitsAt_def)
      ultimately show ?thesis using "1.prems"(2) by (metis static_refl rootKept_refl)
    next
      case False
      from growBody_spec [OF "1.prems"(2) oo False]
      obtain c f1 where gb: "growBody order f = Inr (c, f1)" and i1: "InvQ f1"
        and s1: "static f f1" and r1: "rootKept f f1"
        and dec: "c \<longrightarrow> (queueRanks f1, queueRanks f) \<in> mult rankRel" by blast
      have unf: "grow order f = (if c then grow order f1 else Some (Inr f1))"
        using False gb by (subst grow.simps) simp
      show ?thesis
      proof (cases c)
        case False
        with unf have "grow order f = Some (Inr f1)" by simp
        moreover have "growSteps order 0 f = Inr f \<and> exitsAt order f f1"
          using \<open>leafQueue f \<noteq> []\<close> gb False by (simp add: exitsAt_def)
        ultimately show ?thesis using i1 s1 r1 by (metis InvQ_Inv)
      next
        case True
        with dec "1.prems"(1) have "(queueRanks f1, M) \<in> mult rankRel" by simp
        from "1.IH" [OF this refl InvQ_Inv [OF i1]]
        obtain f' k s where g: "grow order f1 = Some (Inr f')" and i: "Inv f'"
          and s: "static f1 f'" and r: "rootKept f1 f'"
          and ks: "growSteps order k f1 = Inr s" "exitsAt order s f'" by blast
        from unf True g have "grow order f = Some (Inr f')" by simp
        moreover have "growSteps order (Suc k) f = Inr s"
          using \<open>leafQueue f \<noteq> []\<close> gb True ks(1) by simp
        moreover have "static f f'" using s1 s by (rule static_trans)
        moreover have "rootKept f f'" using r1 r by (rule rootKept_trans)
        ultimately show ?thesis using i ks(2) by blast
      qed
    qed
  qed
  from this [OF refl inv] show ?thesis .
qed

lemma growSteps_spec:
  assumes oo: "ordersOK order"
  shows "Inv f \<Longrightarrow>
    \<exists>s. growSteps order k f = Inr s \<and> Inv s \<and> static f s \<and> rootKept f s
        \<and> (0 < k \<longrightarrow> InvQ s \<or> (s = f \<and> leafQueue f = []))
        \<and> (\<forall>q. settled (hd (roots f)) q \<longrightarrow>
               settled (hd (roots s)) q \<and> nodeAt (hd (roots s)) q = nodeAt (hd (roots f)) q)"
proof (induction k arbitrary: f)
  case 0
  then show ?case by simp
next
  case (Suc k)
  show ?case
  proof (cases "leafQueue f = []")
    case True
    with Suc.prems show ?thesis by simp
  next
    case False
    from growBody_spec [OF Suc.prems oo False]
    obtain c f1 where gb: "growBody order f = Inr (c, f1)" and i1: "InvQ f1"
      and s1: "static f f1" and r1: "rootKept f f1"
      and k1: "\<forall>q. settled (hd (roots f)) q \<longrightarrow>
                  settled (hd (roots f1)) q \<and> nodeAt (hd (roots f1)) q = nodeAt (hd (roots f)) q"
      by blast
    show ?thesis
    proof (cases c)
      case False
      with gb \<open>leafQueue f \<noteq> []\<close> have "growSteps order (Suc k) f = Inr f1" by simp
      with i1 s1 r1 k1 show ?thesis by (metis InvQ_Inv)
    next
      case True
      from Suc.IH [OF InvQ_Inv [OF i1]]
      obtain s where g: "growSteps order k f1 = Inr s" and i: "Inv s" and st: "static f1 s"
        and r: "rootKept f1 s" and q: "0 < k \<longrightarrow> InvQ s \<or> (s = f1 \<and> leafQueue f1 = [])"
        and k2: "\<forall>q. settled (hd (roots f1)) q \<longrightarrow>
                  settled (hd (roots s)) q \<and> nodeAt (hd (roots s)) q = nodeAt (hd (roots f1)) q"
        by blast
      have "growSteps order (Suc k) f = Inr s" using gb True \<open>leafQueue f \<noteq> []\<close> g by simp
      moreover have "static f s" using s1 st by (rule static_trans)
      moreover have "rootKept f s" using r1 r by (rule rootKept_trans)
      moreover have "InvQ s"
      proof (cases k)
        case 0
        with g i1 show ?thesis by simp
      next
        case (Suc k')
        with q i1 show ?thesis by auto
      qed
      moreover have "\<forall>q. settled (hd (roots f)) q \<longrightarrow>
               settled (hd (roots s)) q \<and> nodeAt (hd (roots s)) q = nodeAt (hd (roots f)) q"
        using k1 k2 by simp
      ultimately show ?thesis using i by blast
    qed
  qed
qed

lemma NewForest_fields:
  assumes "NewForest fs tc mm = Inr f"
  shows "tc = 1" "1 \<le> fs" "frameSize f = fs" "treeCount f = 1" "minMisclassified f = mm"
    "allowed f = [map int [0 ..< nat (2 * fs - 1)]]"
    "roots f = [NilNode]" "leafQueue f = [None]" "inputsMem f = [[]]"
  using assms by (auto simp: NewForest_def Let_def split: if_splits)

lemma trainInit_spec:
  assumes nf: "NewForest fs tc mm = Inr f"
    and fs: "fs \<le> int (length samples) + 1"
    and len: "fs \<le> int (length samples) \<Longrightarrow> length samples \<le> length expected"
    and oo: "ordersOK order"
  shows "\<exists>f1. trainInit order f samples expected = Inr f1 \<and> Inv f1
           \<and> leafQueue f1 = [Some (0, [])]
           \<and> frameSize f1 = fs \<and> minMisclassified f1 = mm
           \<and> treeCount f1 = 1 \<and> allowed f1 = allowed f
           \<and> trainFrameCount f1 = int (length samples) - fs + 1
           \<and> trainSamples f1 = samples \<and> trainExpected f1 = expected
           \<and> misclassified (hd (roots f1)) =
               (let ones = int (length (filter (\<lambda>i. expected ! nat (int i + fs - 1) = 1)
                                  [0 ..< nat (int (length samples) - fs + 1)]))
                in min ones (int (length samples) - fs + 1 - ones))"
proof -
  note nff = NewForest_fields [OF nf]
  define fc where "fc = int (length samples) - fs + 1"
  define ones where
    "ones = int (length (filter (\<lambda>i. expected ! nat (int i + fs - 1) = 1) [0 ..< nat fc]))"
  define rootNode where "rootNode = Node 0 (nat fc) (ones > fc - ones) (min ones (fc - ones))
                   (- 1) (- 1) NilNode NilNode True 0"
  define f0 where "f0 = rootState f samples expected rootNode"
  define mem0 where "mem0 = map int [0 ..< nat fc]"
  from fs nff(2) have fc: "0 \<le> fc" by (simp add: fc_def)
  have "length (filter (\<lambda>i. expected ! nat (int i + fs - 1) = 1) [0 ..< nat fc]) \<le> length [0 ..< nat fc]"
    by (rule length_filter_le)
  then have ones: "0 \<le> ones" "ones \<le> fc" using fc by (simp_all add: ones_def)
  have rn: "rootNode = childLeaf 0 (nat fc) (ones > fc - ones) (min ones (fc - ones)) 0"
    by (simp add: rootNode_def childLeaf_def)
  have f0: "frameSize f0 = fs" "minMisclassified f0 = mm" "trainFrameCount f0 = fc"
    "trainSamples f0 = samples" "trainExpected f0 = expected" "allowed f0 = allowed f"
    "treeCount f0 = 1"
    "roots f0 = [rootNode]" "inputsMem f0 = [mem0]" "leafQueue f0 = [Some (0, [])]"
    by (simp_all add: f0_def rootState_def nff fc_def mem0_def)
  have ctx: "trainCtx f0"
    using nff(2) len fc by (auto simp: trainCtx_def f0 nff(6) fc_def)
  have "memOK f0 mem0" by (simp add: memOK_def f0 mem0_def)
  moreover have "wfNode 0 (nat (trainFrameCount f0)) rootNode"
    by (simp add: f0 rn wfNode_childLeaf)
  ultimately have ts: "treeState f0 rootNode mem0" using ctx f0 by (simp add: treeState_def)
  have fr: "isFresh (nodeAt rootNode [])" by (simp add: rn isFresh_childLeaf)
  have m0: "0 \<le> misclassified (nodeAt rootNode [])" using ones by (simp add: rootNode_def)
  from precalcAt_spec [OF ts oo fr m0]
  obtain f2 n' mem' where pa: "precalcAt order f0 0 [] = Inr f2"
    and ts2: "treeState f2 (putAt [] n' rootNode) mem'"
    and st: "static f0 f2" and q2: "leafQueue f2 = leafQueue f0"
    and n': "n' \<noteq> NilNode" "isLeaf n'" "misclassified n' = misclassified (nodeAt rootNode [])"
    by auto
  from ts2 have ts2': "treeState f2 n' mem'" by simp
  then have rt2: "roots f2 = [n']" by (simp add: treeState_def)
  have hi: "heapInit (roots f2) (leafQueue f2) = Inr [Some (0, [])]"
    by (simp add: q2 f0 heapInit_single)
  define f1 where "f1 = f2 \<lparr> leafQueue := [Some (0, [])] \<rparr>"
  have ti: "trainInit order f samples expected = Inr f1"
    using trainInit_unfold [OF nf nff(2) fs len, of order]
    unfolding Let_def fc_def [symmetric] ones_def [symmetric] rootNode_def [symmetric]
      f0_def [symmetric]
    by (simp add: pa hi f1_def)
  have ts1: "treeState f1 n' mem'" using ts2' by (simp add: f1_def)
  have "Inv f1"
  proof (cases "isFresh n'")
    case True
    with ts1 show ?thesis by (auto simp: Inv_def f1_def)
  next
    case False
    with n' have "queued n' (Some (0, []))" by (simp add: queued_def)
    with ts1 have "InvQ f1" by (auto simp: InvQ_def f1_def)
    then show ?thesis by (rule InvQ_Inv)
  qed
  moreover have "frameSize f1 = fs" "minMisclassified f1 = mm" "trainFrameCount f1 = fc"
    "trainSamples f1 = samples" "trainExpected f1 = expected"
    "treeCount f1 = 1" "allowed f1 = allowed f"
    using st f0 by (simp_all add: static_def f1_def)
  moreover have "misclassified (hd (roots f1)) = min ones (fc - ones)"
    using rt2 n'(3) by (simp add: f1_def rootNode_def)
  moreover have "leafQueue f1 = [Some (0, [])]" by (simp add: f1_def)
  ultimately show ?thesis using ti
    unfolding Let_def fc_def [symmetric] ones_def [symmetric] by blast
qed


section \<open>Arrays and counts of a well-formed tree\<close>

lemma ordersOK_ascending: "ordersOK ascending"
  by (simp add: ordersOK_def ascending_def)

lemma wfNode_arrays:
  "wfNode s l t \<Longrightarrow> s + l \<le> length mem \<Longrightarrow>
     splitsPartition mem t \<and> concat (leafArrays mem t) = take l (drop s mem)"
proof (induction t arbitrary: s l)
  case NilNode
  then show ?case by simp
next
  case (Node s' l' c m df dc lo hi lf r)
  from Node.prems(1) have e: "s' = s" "l' = l" by simp_all
  have ni: "nodeInputs mem (Node s l c m df dc lo hi lf r) = take l (drop s mem)"
    by (simp add: nodeInputs_def)
  show ?case
  proof (cases "lo = NilNode \<and> hi = NilNode")
    case True
    with Node.prems(1) show ?thesis by (simp add: e nodeInputs_def)
  next
    case False
    with Node.prems(1) have w: "inLen lo \<le> l" "wfNode s (inLen lo) lo"
      "wfNode (s + inLen lo) (l - inLen lo) hi"
      by (auto simp: e split: if_splits)
    define sp where "sp = inLen lo"
    from w Node.prems(2) have b: "s + sp \<le> length mem" "(s + sp) + (l - sp) \<le> length mem"
      by (simp_all add: sp_def)
    from Node.IH(1) [OF w(2) b(1) [unfolded sp_def]] Node.IH(2) [OF w(3) b(2) [unfolded sp_def]]
    have ih: "splitsPartition mem lo" "concat (leafArrays mem lo) = take sp (drop s mem)"
      "splitsPartition mem hi" "concat (leafArrays mem hi) = take (l - sp) (drop (s + sp) mem)"
      by (simp_all add: sp_def)
    from wfNode_fields [OF w(2)] wfNode_fields [OF w(3)]
    have nl: "nodeInputs mem lo = take sp (drop s mem)"
      "nodeInputs mem hi = take (l - sp) (drop (s + sp) mem)"
      by (simp_all add: nodeInputs_def sp_def)
    have cat: "take sp (drop s mem) @ take (l - sp) (drop (s + sp) mem) = take l (drop s mem)"
      using w(1) by (metis sp_def add.commute drop_drop le_add_diff_inverse take_add)
    then have "mset (take sp (drop s mem)) + mset (take (l - sp) (drop (s + sp) mem))
        = mset (take l (drop s mem))"
      by (metis mset_append)
    with ih nl cat show ?thesis by (simp add: e nodeInputs_def)
  qed
qed

lemma wfNode_errors:
  "wfNode s l t \<Longrightarrow> splitsReduce t \<and> (\<exists>e. totalErrors t = Inr e \<and> e \<le> misclassified t)"
proof (induction t arbitrary: s l)
  case NilNode
  then show ?case by simp
next
  case (Node s' l' c m df dc lo hi lf r)
  show ?case
  proof (cases "lo = NilNode \<and> hi = NilNode")
    case True
    with Node.prems show ?thesis by simp
  next
    case False
    with Node.prems have w: "wfNode s (inLen lo) lo" "wfNode (s + inLen lo) (l - inLen lo) hi"
      "misclassified lo + misclassified hi < upperBar m" "0 \<le> m"
      by (auto split: if_splits)
    from Node.IH(1) [OF w(1)] Node.IH(2) [OF w(2)]
    obtain a b where ih: "splitsReduce lo" "totalErrors lo = Inr a" "a \<le> misclassified lo"
      "splitsReduce hi" "totalErrors hi = Inr b" "b \<le> misclassified hi"
      by blast
    from w(3) upperBar_le [OF w(4)] have "misclassified lo + misclassified hi \<le> m" by simp
    with ih show ?thesis by simp
  qed
qed


section \<open>The states of the loop\<close>

lemma grow_final:
  assumes oo: "ordersOK order" and inv: "Inv f"
  shows "\<exists>f' k s. grow order f = Some (Inr f') \<and> growSteps order k f = Inr s
           \<and> exitsAt order s f' \<and> (\<forall>j. k < j \<longrightarrow> growSteps order j f = Inr f')"
proof -
  have "\<And>f. queueRanks f = M \<Longrightarrow> Inv f \<Longrightarrow>
      \<exists>f' k s. grow order f = Some (Inr f') \<and> growSteps order k f = Inr s
           \<and> exitsAt order s f' \<and> (\<forall>j. k < j \<longrightarrow> growSteps order j f = Inr f')" for M
  proof (induction M rule: wf_induct_rule [OF wf_mult [OF wf_rankRel]])
    case (1 M)
    show ?case
    proof (cases "leafQueue f = []")
      case True
      then have "grow order f = Some (Inr f)" by (subst grow.simps) simp
      moreover have "growSteps order 0 f = Inr f \<and> exitsAt order f f"
        using True by (simp add: exitsAt_def)
      moreover have "\<forall>j. 0 < j \<longrightarrow> growSteps order j f = Inr f"
      proof (intro allI impI)
        fix j :: nat assume "0 < j"
        then obtain j' where "j = Suc j'" by (cases j) simp_all
        with True show "growSteps order j f = Inr f" by simp
      qed
      ultimately show ?thesis by blast
    next
      case False
      from growBody_spec [OF "1.prems"(2) oo False]
      obtain c f1 where gb: "growBody order f = Inr (c, f1)" and i1: "InvQ f1"
        and dec: "c \<longrightarrow> (queueRanks f1, queueRanks f) \<in> mult rankRel" by blast
      have unf: "grow order f = (if c then grow order f1 else Some (Inr f1))"
        using False gb by (subst grow.simps) simp
      have stp: "growSteps order (Suc j) f = (if c then growSteps order j f1 else Inr f1)" for j
        using False gb by simp
      show ?thesis
      proof (cases c)
        case False
        with unf have "grow order f = Some (Inr f1)" by simp
        moreover have "growSteps order 0 f = Inr f \<and> exitsAt order f f1"
          using \<open>leafQueue f \<noteq> []\<close> gb False by (simp add: exitsAt_def)
        moreover have "\<forall>j. 0 < j \<longrightarrow> growSteps order j f = Inr f1"
        proof (intro allI impI)
          fix j :: nat assume "0 < j"
          then obtain j' where "j = Suc j'" by (cases j) simp_all
          with stp [of j'] False show "growSteps order j f = Inr f1" by simp
        qed
        ultimately show ?thesis by blast
      next
        case True
        with dec "1.prems"(1) have "(queueRanks f1, M) \<in> mult rankRel" by simp
        from "1.IH" [OF this refl InvQ_Inv [OF i1]]
        obtain f' k s where g: "grow order f1 = Some (Inr f')"
          and ks: "growSteps order k f1 = Inr s" "exitsAt order s f'"
          and la: "\<forall>j. k < j \<longrightarrow> growSteps order j f1 = Inr f'" by blast
        from unf True g have "grow order f = Some (Inr f')" by simp
        moreover have "growSteps order (Suc k) f = Inr s"
          using stp [of k] True ks(1) by simp
        moreover have "\<forall>j. Suc k < j \<longrightarrow> growSteps order j f = Inr f'"
        proof (intro allI impI)
          fix j :: nat assume a: "Suc k < j"
          then obtain j' where j: "j = Suc j'" by (cases j) simp_all
          with a la have "growSteps order j' f1 = Inr f'" by simp
          with stp [of j'] True j show "growSteps order j f = Inr f'" by simp
        qed
        ultimately show ?thesis using ks(2) by blast
      qed
    qed
  qed
  from this [OF refl inv] show ?thesis .
qed

lemma growSteps_later:
  assumes oo: "ordersOK order"
  shows "Inv f \<Longrightarrow> growSteps order k f = Inr s \<Longrightarrow> growSteps order (k + d) f = Inr s' \<Longrightarrow>
     settled (hd (roots s)) q \<Longrightarrow>
     settled (hd (roots s')) q \<and> nodeAt (hd (roots s')) q = nodeAt (hd (roots s)) q"
proof (induction k arbitrary: f)
  case 0
  from growSteps_spec [OF oo "0.prems"(1), of d] "0.prems"(2,3,4) show ?case by auto
next
  case (Suc k)
  show ?case
  proof (cases "leafQueue f = []")
    case True
    with Suc.prems show ?thesis by simp
  next
    case False
    from growBody_spec [OF Suc.prems(1) oo False]
    obtain c f1 where gb: "growBody order f = Inr (c, f1)" and i1: "InvQ f1" by blast
    show ?thesis
    proof (cases c)
      case False
      with gb \<open>leafQueue f \<noteq> []\<close> Suc.prems show ?thesis by simp
    next
      case True
      with gb \<open>leafQueue f \<noteq> []\<close> Suc.prems(2,3)
      have "growSteps order k f1 = Inr s" "growSteps order (k + d) f1 = Inr s'" by simp_all
      from Suc.IH [OF InvQ_Inv [OF i1] this Suc.prems(4)] show ?thesis .
    qed
  qed
qed

lemma root_fresh_stops:
  assumes r: "roots f = [t]" and q: "leafQueue f = [Some (0, [])]" and t: "t \<noteq> NilNode"
    and d: "decideFeature t = - 1"
  shows "growBody order f = Inr (False, f \<lparr> leafQueue := [] \<rparr>)"
proof -
  from heapPop_spec [of "[Some (0, [])]" "[t]"]
  obtain pq' where "heapPop [t] [Some (0, [])] = Inr (Some (0, []), pq')"
    "mset [Some (0, [])] = add_mset (Some (0, [])) (mset pq')" by auto
  then have hp: "heapPop [t] [Some (0, [])] = Inr (Some (0, []), [])" by simp
  have dr: "derefNode [t] (Some (0, [])) = Inr t" using t by (simp add: derefNode_def)
  show ?thesis unfolding growBody_def r q hp using dr d by simp
qed


section \<open>A training run\<close>

lemma train_run:
  assumes nf: "NewForest fs tc mm = Inr f"
    and fs: "fs \<le> int (length samples) + 1"
    and len: "fs \<le> int (length samples) \<Longrightarrow> length samples \<le> length expected"
    and oo: "ordersOK order"
  shows "\<exists>f1 f' k s. trainInit order f samples expected = Inr f1
           \<and> Train order f samples expected = Some (Inr f')
           \<and> Inv f1 \<and> leafQueue f1 = [Some (0, [])]
           \<and> trainFrameCount f1 = int (length samples) - fs + 1
           \<and> (\<forall>r. static f1 (rootState f samples expected r))
           \<and> misclassified (hd (roots f1)) =
               (let ones = int (length (filter (\<lambda>i. expected ! nat (int i + fs - 1) = 1)
                                  [0 ..< nat (int (length samples) - fs + 1)]))
                in min ones (int (length samples) - fs + 1 - ones))
           \<and> growSteps order k f1 = Inr s \<and> exitsAt order s f'
           \<and> (\<forall>j. k < j \<longrightarrow> growSteps order j f1 = Inr f')"
proof -
  from trainInit_spec [OF nf fs len oo]
  obtain f1 where ti: "trainInit order f samples expected = Inr f1" and inv: "Inv f1"
    and q: "leafQueue f1 = [Some (0, [])]"
    and fc: "trainFrameCount f1 = int (length samples) - fs + 1"
    and sf: "frameSize f1 = fs" "minMisclassified f1 = mm" "treeCount f1 = 1"
      "allowed f1 = allowed f" "trainSamples f1 = samples" "trainExpected f1 = expected"
    and m: "misclassified (hd (roots f1)) =
               (let ones = int (length (filter (\<lambda>i. expected ! nat (int i + fs - 1) = 1)
                                  [0 ..< nat (int (length samples) - fs + 1)]))
                in min ones (int (length samples) - fs + 1 - ones))"
    by blast
  from grow_final [OF oo inv]
  obtain f' k s where g: "grow order f1 = Some (Inr f')" and ks: "growSteps order k f1 = Inr s"
    "exitsAt order s f'" "\<forall>j. k < j \<longrightarrow> growSteps order j f1 = Inr f'" by blast
  from ti g have "Train order f samples expected = Some (Inr f')" by (simp add: Train_def)
  moreover have "\<forall>r. static f1 (rootState f samples expected r)"
    using sf fc NewForest_fields [OF nf] by (simp add: static_def rootState_def)
  ultimately show ?thesis using ti inv q fc m ks by blast
qed

lemma state_tree:
  assumes "Inv s"
  shows "\<exists>t mem. roots s = [t] \<and> inputsMem s = [mem] \<and> memOK s mem
           \<and> wfNode 0 (nat (trainFrameCount s)) t \<and> trainCtx s"
  using assms by (auto simp: Inv_def InvQ_def treeState_def)

lemma exitsAt_reason:
  assumes "exitsAt order s f'"
  shows "(leafQueue s = [] \<and> f' = s)
       \<or> (\<exists>ref pq n. leafQueue s \<noteq> [] \<and> heapPop (roots s) (leafQueue s) = Inr (Some ref, pq)
             \<and> derefNode (roots s) (Some ref) = Inr n
             \<and> (decideFeature n = - 1 \<or> misclassified n < minMisclassified s)
             \<and> f' = s \<lparr> leafQueue := pq \<rparr>)"
proof (cases "leafQueue s = []")
  case True
  with assms show ?thesis by (simp add: exitsAt_def)
next
  case False
  with assms have gb: "growBody order s = Inr (False, f')" by (simp add: exitsAt_def)
  then obtain r pq where hp: "heapPop (roots s) (leafQueue s) = Inr (r, pq)"
    by (auto simp: growBody_def split: sum.splits)
  with gb obtain ref where r: "r = Some ref"
    by (cases r) (auto simp: growBody_def)
  with gb hp obtain n where d: "derefNode (roots s) (Some ref) = Inr n"
    by (auto simp: growBody_def split: sum.splits)
  from gb hp r d have "(decideFeature n = - 1 \<or> misclassified n < minMisclassified s)
      \<and> f' = s \<lparr> leafQueue := pq \<rparr>"
    by (auto simp: growBody_def split: if_splits sum.splits)
  with False hp r d show ?thesis by blast
qed

lemma state_arrays:
  assumes "Inv s"
  shows "\<exists>t mem. roots s = [t] \<and> inputsMem s = [mem] \<and> splitsPartition mem t
           \<and> mset (concat (leafArrays mem t)) = mset (map int [0 ..< nat (trainFrameCount s)])
           \<and> distinct (concat (leafArrays mem t))"
proof -
  from state_tree [OF assms] obtain t mem where tm: "roots s = [t]" "inputsMem s = [mem]"
    "memOK s mem" "wfNode 0 (nat (trainFrameCount s)) t" by blast
  from tm(3) have l: "length mem = nat (trainFrameCount s)"
    and ms: "mset mem = mset (map int [0 ..< nat (trainFrameCount s)])"
    by (simp_all add: memOK_def)
  from wfNode_arrays [OF tm(4), of mem] l
  have a: "splitsPartition mem t" "concat (leafArrays mem t) = mem" by simp_all
  have "distinct (map int [0 ..< nat (trainFrameCount s)])" by (simp add: distinct_map)
  with ms have "distinct mem" by (metis mset_eq_imp_distinct_iff)
  with a ms tm show ?thesis by simp
qed

lemma state_queue:
  assumes "InvQ s"
  shows "(\<forall>r \<in> set (leafQueue s). \<exists>n. derefNode (roots s) r = Inr n \<and> decideFeature n \<noteq> - 1
             \<and> lowerChild n \<noteq> NilNode \<and> highEqChild n \<noteq> NilNode)
       \<and> (\<forall>i j. i < length (leafQueue s) \<and> j < length (leafQueue s) \<longrightarrow>
             (\<exists>b. Less (roots s) (leafQueue s) (int i) (int j) = Inr b))"
proof -
  from assms obtain t mem where ts: "treeState s t mem"
    and qd: "\<forall>r \<in> set (leafQueue s). queued t r" by (auto simp: InvQ_def)
  from ts have rt: "roots s = [t]" and w: "wfNode 0 (nat (trainFrameCount s)) t"
    by (simp_all add: treeState_def)
  have one: "\<exists>n. derefNode (roots s) r = Inr n \<and> decideFeature n \<noteq> - 1
             \<and> lowerChild n \<noteq> NilNode \<and> highEqChild n \<noteq> NilNode"
    if "r \<in> set (leafQueue s)" for r
  proof -
    from qd that obtain p where r: "r = Some (0, p)" and n: "nodeAt t p \<noteq> NilNode"
      "\<not> isFresh (nodeAt t p)" by (auto simp: queued_def)
    from wfNode_sub [OF w n(1)] wfNode_candidate [OF _ n(2)]
    have "lowerChild (nodeAt t p) \<noteq> NilNode" "highEqChild (nodeAt t p) \<noteq> NilNode"
      "decideFeature (nodeAt t p) \<noteq> - 1" by blast+
    with r n(1) rt show ?thesis by (simp add: derefNode_def)
  qed
  have "cmpOK (roots s) (leafQueue s)"
    unfolding cmpOK_def rt using queued_fix [OF w] qd by blast
  with one Less_total show ?thesis by blast
qed

lemma binary_counts:
  assumes "\<And>i. i \<in> set xs \<Longrightarrow> lab i = (0 :: int) \<or> lab i = 1"
  shows "int (length xs) - int (length (filter (\<lambda>i. lab i = 1) xs))
           = int (length (filter (\<lambda>i. lab i = 0) xs))"
proof -
  have "filter (\<lambda>i. lab i = 0) xs = filter (\<lambda>i. \<not> lab i = 1) xs"
    using assms by (intro filter_cong refl) auto
  moreover have "length (filter (\<lambda>i. lab i = 1) xs) + length (filter (\<lambda>i. \<not> lab i = 1) xs)
      = length xs" by (rule sum_length_filter_compl)
  ultimately show ?thesis by simp
qed

lemma precalc_iff:
  assumes ctx: "trainCtx f" and mo: "memOK f mem" and win: "s + l \<le> length mem"
    and m: "0 \<le> m" and oo: "ordersOK order"
  shows "(\<forall>ft \<in> set (features f).
            \<exists>cand. splitReduction f (take l (drop s mem)) (childLeaf s l c m 0) ft = Inr cand)
       \<and> (\<exists>mem' n'. precalcBestSplit f (order h) mem (childLeaf s l c m 0) = Inr (mem', n')
             \<and> (decideFeature n' \<noteq> - 1 \<longleftrightarrow>
                  minMisses f (take l (drop s mem)) (childLeaf s l c m 0) < upperBar m)
             \<and> (decideFeature n' = - 1 \<longrightarrow> n' = childLeaf s l c m 0 \<and> mem' = mem))"
proof -
  have fr: "frameOK f x" if "x \<in> set (take l (drop s mem))" for x
  proof -
    from that have "x \<in> set mem" by (meson in_set_dropD in_set_takeD)
    with mo show ?thesis by (rule memOK_frames)
  qed
  from oo have "mset (order h (features f)) = mset (features f)"
    unfolding ordersOK_def by blast
  then have ord: "set (order h (features f)) = set (features f)" by (rule mset_eq_setD)
  have a: "\<exists>cand. splitReduction f (take l (drop s mem)) (childLeaf s l c m 0) ft = Inr cand"
    if "ft \<in> set (features f)" for ft
  proof -
    from that allowed_keys(4) [OF ctx] have "featureOK f ft" by (simp add: features_def)
    from splitReduction_result [OF ctx fr this] show ?thesis by blast
  qed
  have ne: "featureMisses f (take l (drop s mem)) (childLeaf s l c m 0) ` set (features f) \<noteq> {}"
    using allowed_keys(3) [OF ctx] by (simp add: features_def)
  have mn: "(minMisses f (take l (drop s mem)) (childLeaf s l c m 0) < upperBar m)
      \<longleftrightarrow> (\<exists>k \<in> set (features f).
             featureMisses f (take l (drop s mem)) (childLeaf s l c m 0) k < upperBar m)"
    unfolding minMisses_def using ne by (subst Min_less_iff) auto
  from precalc_result [where f = f and s = s and l = l and mem = mem and m = m and c = c
      and order = "order h", OF ctx win fr m ord]
  obtain mem' n' where p: "precalcBestSplit f (order h) mem (childLeaf s l c m 0) = Inr (mem', n')"
    and i: "decideFeature n' \<noteq> - 1 \<longleftrightarrow>
                (\<exists>k \<in> set (features f).
                   featureMisses f (take l (drop s mem)) (childLeaf s l c m 0) k < upperBar m)"
    and d: "n' = childLeaf s l c m 0 \<and> mem' = mem
               \<or> (\<exists>df dc sp tb a b.
                    n' = Node s l c m df dc (childLeaf s sp tb a 0)
                           (childLeaf (s + sp) (l - sp) (\<not> tb) b 0) True 0
                    \<and> df \<noteq> - 1 \<and> sp \<le> l \<and> a + b < upperBar m
                    \<and> (0 < a \<longrightarrow> ((sp, if tb then 1 else 0, nat a),
                                      (l, if c then 1 else 0, nat m)) \<in> rankRel)
                    \<and> (0 < b \<longrightarrow> ((l - sp, if \<not> tb then 1 else 0, nat b),
                                      (l, if c then 1 else 0, nat m)) \<in> rankRel))"
    by blast
  from d have "decideFeature n' = - 1 \<longrightarrow> n' = childLeaf s l c m 0 \<and> mem' = mem" by auto
  with p i mn a show ?thesis by blast
qed

lemma mapE_fails: "x \<in> set xs \<Longrightarrow> g x = Inl e \<Longrightarrow> \<exists>e'. mapE g xs = Inl e'"
  by (induction xs) (auto split: sum.splits)

lemma trainInit_negative:
  assumes nf: "NewForest fs tc mm = Inr f" and "int (length samples) + 1 < fs"
  shows "trainInit order f samples labels = Inl NegativeLength"
proof -
  note nff = NewForest_fields [OF nf]
  from assms(2) have "nat (int (length samples) - fs + 1) = 0" by simp
  then have "frameLabels fs (int (length samples) - fs + 1) labels = Inr []"
    by (simp add: frameLabels_def)
  with assms(2) show ?thesis
    by (simp add: trainInit_def Let_def nff)
qed

lemma trainInit_short_labels:
  assumes nf: "NewForest fs tc mm = Inr f" and "fs \<le> int (length samples)"
    and "length labels < length samples"
  shows "\<exists>e. trainInit order f samples labels = Inl e"
proof -
  note nff = NewForest_fields [OF nf]
  define i where "i = nat (int (length samples) - fs)"
  from assms(2) nff(2) have "i \<in> set [0 ..< nat (int (length samples) - fs + 1)]"
    by (simp add: i_def)
  moreover have "idx labels (int i + fs - 1) = Inl IndexOutOfRange"
    using assms(2,3) by (simp add: idx_def i_def)
  ultimately have "\<exists>e. frameLabels fs (int (length samples) - fs + 1) labels = Inl e"
    unfolding frameLabels_def by (rule mapE_fails)
  then show ?thesis by (auto simp: trainInit_def Let_def nff)
qed

lemma NewForest_ok: "(\<exists>f. NewForest fs tc mm = Inr f) \<longleftrightarrow> tc = 1 \<and> 1 \<le> fs"
  by (auto simp: NewForest_def Let_def)

lemma trainCall_cases:
  assumes oo: "ordersOK order"
  shows "(tc = 1 \<and> 1 \<le> fs \<and> fs \<le> int (length samples) + 1
            \<and> (fs \<le> int (length samples) \<longrightarrow> length samples \<le> length labels)
          \<longrightarrow> (\<exists>f'. trainCall order fs tc mm samples labels = Some (Inr f')))
       \<and> (\<not> (tc = 1 \<and> 1 \<le> fs \<and> fs \<le> int (length samples) + 1
            \<and> (fs \<le> int (length samples) \<longrightarrow> length samples \<le> length labels))
          \<longrightarrow> (\<exists>e. trainCall order fs tc mm samples labels = Some (Inl e)))"
proof (intro conjI impI)
  assume a: "tc = 1 \<and> 1 \<le> fs \<and> fs \<le> int (length samples) + 1
            \<and> (fs \<le> int (length samples) \<longrightarrow> length samples \<le> length labels)"
  with NewForest_ok [of fs tc mm] obtain f where nf: "NewForest fs tc mm = Inr f" by blast
  from a have 1: "fs \<le> int (length samples) + 1"
    and 2: "fs \<le> int (length samples) \<Longrightarrow> length samples \<le> length labels" by simp_all
  from train_run [OF nf 1 2 oo] obtain f' where "Train order f samples labels = Some (Inr f')"
    by blast
  with nf show "\<exists>f'. trainCall order fs tc mm samples labels = Some (Inr f')"
    by (simp add: trainCall_def)
next
  assume a: "\<not> (tc = 1 \<and> 1 \<le> fs \<and> fs \<le> int (length samples) + 1
            \<and> (fs \<le> int (length samples) \<longrightarrow> length samples \<le> length labels))"
  show "\<exists>e. trainCall order fs tc mm samples labels = Some (Inl e)"
  proof (cases "tc = 1 \<and> 1 \<le> fs")
    case False
    with NewForest_ok [of fs tc mm] obtain e where "NewForest fs tc mm = Inl e"
      by (cases "NewForest fs tc mm") auto
    then show ?thesis by (simp add: trainCall_def)
  next
    case True
    with NewForest_ok [of fs tc mm] obtain f where nf: "NewForest fs tc mm = Inr f" by blast
    from a True have "int (length samples) + 1 < fs
        \<or> (fs \<le> int (length samples) \<and> length labels < length samples)" by auto
    then have "\<exists>e. trainInit order f samples labels = Inl e"
      using trainInit_negative [OF nf] trainInit_short_labels [OF nf] by blast
    with nf show ?thesis by (auto simp: trainCall_def Train_def)
  qed
qed


section \<open>The root leaf\<close>

text \<open>
  C1. For a forest made by \<open>NewForest\<close> with frame size \<open>fs\<close>, samples at least as long as
  the frame and as many labels as samples: the frame count is \<open>len(samples) - fs + 1\<close>;
  the first loop of \<open>Train\<close> reads for frame \<open>i\<close> the label \<open>labels[i + fs - 1]\<close>; the
  state that \<open>Train\<close> hands to the evaluation of the root and to \<open>heap.Init\<close> has that
  frame count and one root, a leaf over the frames \<open>0, ..., frameCount - 1\<close> that is
  classified true exactly if the frames labelled 1 outnumber the others (a tie is false)
  and stores the smaller of the two counts. With labels 0 and 1 only, the others are the
  frames labelled 0.
\<close>

theorem train_root:
  assumes "NewForest fs tc mm = Inr f"
    and "fs \<le> int (length samples)"
    and "length labels = length samples"
  shows "let frameCount = int (length samples) - fs + 1;
             label = (\<lambda>i. labels ! nat (int i + fs - 1));
             ones = int (length (filter (\<lambda>i. label i = 1) [0 ..< nat frameCount]));
             zeros = int (length (filter (\<lambda>i. label i = 0) [0 ..< nat frameCount]));
             rootNode = Node 0 (nat frameCount) (ones > frameCount - ones)
                          (min ones (frameCount - ones)) (- 1) (- 1) NilNode NilNode True 0;
             f0 = rootState f samples labels rootNode
         in frameSize f = fs
          \<and> frameLabels (frameSize f) frameCount labels = Inr (map label [0 ..< nat frameCount])
          \<and> trainInit order f samples labels =
               (case precalcAt order f0 0 [] of
                  Inl e \<Rightarrow> Inl e
                | Inr f2 \<Rightarrow>
                    (case heapInit (roots f2) (leafQueue f2) of
                       Inl e \<Rightarrow> Inl e
                     | Inr pq \<Rightarrow> Inr (f2 \<lparr> leafQueue := pq \<rparr>)))
          \<and> trainFrameCount f0 = frameCount \<and> roots f0 = [rootNode]
          \<and> nodeInputs (hd (inputsMem f0)) rootNode = map int [0 ..< nat frameCount]
          \<and> (set labels \<subseteq> {0, 1} \<longrightarrow>
                frameCount - ones = zeros
                \<and> classifyAsTrue rootNode = (ones > zeros)
                \<and> misclassified rootNode = min ones zeros)"
proof -
  note nff = NewForest_fields [OF assms(1)]
  define frameCount where "frameCount = int (length samples) - fs + 1"
  define label where "label = (\<lambda>i. labels ! nat (int i + fs - 1))"
  define ones where "ones = int (length (filter (\<lambda>i. labels ! nat (int i + fs - 1) = 1)
                                  [0 ..< nat frameCount]))"
  define zeros where "zeros = int (length (filter (\<lambda>i. labels ! nat (int i + fs - 1) = 0)
                                  [0 ..< nat frameCount]))"
  define rootNode where "rootNode = Node 0 (nat frameCount) (ones > frameCount - ones)
                          (min ones (frameCount - ones)) (- 1) (- 1) NilNode NilNode True 0"
  define f0 where "f0 = rootState f samples labels rootNode"
  from assms(2) nff(2) have fc: "0 < frameCount" by (simp add: frameCount_def)
  have fs1: "fs \<le> int (length samples) + 1" using assms(2) by simp
  have le: "length samples \<le> length labels" using assms(3) by simp
  have a: "frameLabels (frameSize f) frameCount labels = Inr (map label [0 ..< nat frameCount])"
    unfolding label_def nff(3)
    using fc nff(2) assms(3) by (intro frameLabels_ok) (simp_all add: frameCount_def)
  have b: "trainInit order f samples labels =
               (case precalcAt order f0 0 [] of
                  Inl e \<Rightarrow> Inl e
                | Inr f2 \<Rightarrow>
                    (case heapInit (roots f2) (leafQueue f2) of
                       Inl e \<Rightarrow> Inl e
                     | Inr pq \<Rightarrow> Inr (f2 \<lparr> leafQueue := pq \<rparr>)))"
    using trainInit_unfold [OF assms(1) nff(2) fs1 le, of order]
    unfolding Let_def frameCount_def [symmetric] ones_def [symmetric]
      rootNode_def [symmetric] f0_def [symmetric] .
  have c: "trainFrameCount f0 = frameCount" "roots f0 = [rootNode]"
    "nodeInputs (hd (inputsMem f0)) rootNode = map int [0 ..< nat frameCount]"
    by (simp_all add: f0_def rootState_def nff(3) frameCount_def rootNode_def nodeInputs_def)
  have d: "frameCount - ones = zeros" if "set labels \<subseteq> {0, 1}"
  proof -
    have "label i = 0 \<or> label i = 1" if "i \<in> set [0 ..< nat frameCount]" for i
    proof -
      from that nff(2) assms(3) have "nat (int i + fs - 1) < length labels"
        by (auto simp: frameCount_def)
      then have "labels ! nat (int i + fs - 1) \<in> set labels" by (rule nth_mem)
      with \<open>set labels \<subseteq> {0, 1}\<close> show ?thesis by (auto simp: label_def)
    qed
    from binary_counts [of "[0 ..< nat frameCount]" label, OF this] fc
    show ?thesis by (simp add: ones_def zeros_def label_def)
  qed
  have e: "classifyAsTrue rootNode = (ones > frameCount - ones)"
    "misclassified rootNode = min ones (frameCount - ones)"
    by (simp_all add: rootNode_def)
  have "frameSize f = fs
          \<and> frameLabels (frameSize f) frameCount labels = Inr (map label [0 ..< nat frameCount])
          \<and> trainInit order f samples labels =
               (case precalcAt order f0 0 [] of
                  Inl e \<Rightarrow> Inl e
                | Inr f2 \<Rightarrow>
                    (case heapInit (roots f2) (leafQueue f2) of
                       Inl e \<Rightarrow> Inl e
                     | Inr pq \<Rightarrow> Inr (f2 \<lparr> leafQueue := pq \<rparr>)))
          \<and> trainFrameCount f0 = frameCount \<and> roots f0 = [rootNode]
          \<and> nodeInputs (hd (inputsMem f0)) rootNode = map int [0 ..< nat frameCount]
          \<and> (set labels \<subseteq> {0, 1} \<longrightarrow>
                frameCount - ones = zeros
                \<and> classifyAsTrue rootNode = (ones > zeros)
                \<and> misclassified rootNode = min ones zeros)"
    using nff(3) a b c d e by auto
  then show ?thesis
    unfolding Let_def frameCount_def label_def ones_def zeros_def rootNode_def f0_def .
qed

text \<open>
  The run of the repository's test: frame size 2 on seven samples gives six frames with
  the labels 1, 0, 1, 0, 0, 1; the tie is classified false and the root stores 3.
\<close>

theorem train_root_witness:
  "\<exists>f. NewForest 2 1 0 = Inr f
     \<and> frameLabels (frameSize f) 6 [0, 1, 0, 1, 0, 0, 1] = Inr [1, 0, 1, 0, 0, 1]
     \<and> trainInit ascending f [10, 15, 11, 12, 8, 3, 7] [0, 1, 0, 1, 0, 0, 1] =
          (case precalcAt ascending
                  (rootState f [10, 15, 11, 12, 8, 3, 7] [0, 1, 0, 1, 0, 0, 1]
                     (Node 0 6 False 3 (- 1) (- 1) NilNode NilNode True 0)) 0 [] of
             Inl e \<Rightarrow> Inl e
           | Inr f2 \<Rightarrow>
               (case heapInit (roots f2) (leafQueue f2) of
                  Inl e \<Rightarrow> Inl e
                | Inr pq \<Rightarrow> Inr (f2 \<lparr> leafQueue := pq \<rparr>)))
     \<and> nodeInputs (hd (inputsMem (rootState f [10, 15, 11, 12, 8, 3, 7] [0, 1, 0, 1, 0, 0, 1]
                     (Node 0 6 False 3 (- 1) (- 1) NilNode NilNode True 0))))
          (Node 0 6 False 3 (- 1) (- 1) NilNode NilNode True 0) = [0, 1, 2, 3, 4, 5]"
proof -
  obtain f where nf: "NewForest 2 1 0 = Inr f" by (simp add: NewForest_def)
  have e1: "int (length [10, 15, 11, 12, 8, 3, 7 :: sample]) - 2 + 1 = 6" by simp
  have e2: "int (length (filter (\<lambda>i. [0, 1, 0, 1, 0, 0, 1 :: int] ! nat (int i + 2 - 1) = 1)
                   [0 ..< nat 6])) = 3" by code_simp
  have e3: "int (length (filter (\<lambda>i. [0, 1, 0, 1, 0, 0, 1 :: int] ! nat (int i + 2 - 1) = 0)
                   [0 ..< nat 6])) = 3" by code_simp
  have e4: "map (\<lambda>i. [0, 1, 0, 1, 0, 0, 1 :: int] ! nat (int i + 2 - 1)) [0 ..< nat 6]
              = [1, 0, 1, 0, 0, 1]" by code_simp
  have e5: "map int [0 ..< nat 6] = [0, 1, 2, 3, 4, 5]" by code_simp
  from train_root [OF nf, of "[10, 15, 11, 12, 8, 3, 7]" "[0, 1, 0, 1, 0, 0, 1]" ascending,
      unfolded Let_def e1 e2 e3 e4 e5]
  have "frameLabels (frameSize f) 6 [0, 1, 0, 1, 0, 0, 1] = Inr [1, 0, 1, 0, 0, 1]
     \<and> trainInit ascending f [10, 15, 11, 12, 8, 3, 7] [0, 1, 0, 1, 0, 0, 1] =
          (case precalcAt ascending
                  (rootState f [10, 15, 11, 12, 8, 3, 7] [0, 1, 0, 1, 0, 0, 1]
                     (Node 0 6 False 3 (- 1) (- 1) NilNode NilNode True 0)) 0 [] of
             Inl e \<Rightarrow> Inl e
           | Inr f2 \<Rightarrow>
               (case heapInit (roots f2) (leafQueue f2) of
                  Inl e \<Rightarrow> Inl e
                | Inr pq \<Rightarrow> Inr (f2 \<lparr> leafQueue := pq \<rparr>)))
     \<and> nodeInputs (hd (inputsMem (rootState f [10, 15, 11, 12, 8, 3, 7] [0, 1, 0, 1, 0, 0, 1]
                     (Node 0 6 False 3 (- 1) (- 1) NilNode NilNode True 0))))
          (Node 0 6 False 3 (- 1) (- 1) NilNode NilNode True 0) = [0, 1, 2, 3, 4, 5]"
    by auto
  with nf show ?thesis by blast
qed

section \<open>The end of the growth loop\<close>

text \<open>
  C2. The loop \<open>for len(f.leafQueue) > 0\<close> in any state \<open>f\<close>: with an empty queue it ends
  and \<open>f\<close> is the result. Otherwise it pops the leaf of highest priority; if that leaf
  holds no candidate, or stores a count below \<open>minMisclassified\<close>, the loop ends at once:
  the result is \<open>f\<close> with the rest of the queue, and with the trees of \<open>f\<close>, whatever the
  rest of the queue holds. Only if the popped leaf holds a candidate and stores at least
  \<open>minMisclassified\<close> is it converted and the loop goes on.
\<close>

theorem growth_stops:
  "(leafQueue f = [] \<longrightarrow> grow order f = Some (Inr f))
   \<and> (leafQueue f \<noteq> [] \<and> heapPop (roots f) (leafQueue f) = Inr (Some ref, pq)
        \<and> derefNode (roots f) (Some ref) = Inr n \<longrightarrow>
          (decideFeature n = - 1 \<or> misclassified n < minMisclassified f \<longrightarrow>
             grow order f = Some (Inr (f \<lparr> leafQueue := pq \<rparr>))
             \<and> roots (f \<lparr> leafQueue := pq \<rparr>) = roots f
             \<and> inputsMem (f \<lparr> leafQueue := pq \<rparr>) = inputsMem f)
        \<and> (decideFeature n \<noteq> - 1 \<and> minMisclassified f \<le> misclassified n \<longrightarrow>
             grow order f =
               (case convertToBranch order (f \<lparr> leafQueue := pq \<rparr>) (fst ref) (snd ref) of
                  Inl e \<Rightarrow> Some (Inl e)
                | Inr f2 \<Rightarrow> grow order f2)))"
proof (intro conjI impI)
  assume "leafQueue f = []"
  then show "grow order f = Some (Inr f)" by (subst grow.simps) simp
next
  assume a: "leafQueue f \<noteq> [] \<and> heapPop (roots f) (leafQueue f) = Inr (Some ref, pq)
        \<and> derefNode (roots f) (Some ref) = Inr n"
    and b: "decideFeature n = - 1 \<or> misclassified n < minMisclassified f"
  from a b have "growBody order f = Inr (False, f \<lparr> leafQueue := pq \<rparr>)"
    by (auto simp: growBody_def)
  with a show "grow order f = Some (Inr (f \<lparr> leafQueue := pq \<rparr>))"
    by (subst grow.simps) simp
next
  assume a: "leafQueue f \<noteq> [] \<and> heapPop (roots f) (leafQueue f) = Inr (Some ref, pq)
        \<and> derefNode (roots f) (Some ref) = Inr n"
    and b: "decideFeature n \<noteq> - 1 \<and> minMisclassified f \<le> misclassified n"
  from a b have "growBody order f =
      (case convertToBranch order (f \<lparr> leafQueue := pq \<rparr>) (fst ref) (snd ref) of
         Inl e \<Rightarrow> Inl e
       | Inr f2 \<Rightarrow> Inr (True, f2))"
    by (simp add: growBody_def)
  with a show "grow order f =
               (case convertToBranch order (f \<lparr> leafQueue := pq \<rparr>) (fst ref) (snd ref) of
                  Inl e \<Rightarrow> Some (Inl e)
                | Inr f2 \<Rightarrow> grow order f2)"
    by (subst grow.simps) (simp split: sum.splits)
qed simp_all

text \<open>
  A run with \<open>minMisclassified = 3\<close> on fourteen frames: the first iteration splits the
  root (7 misclassified) and queues both children, each with a candidate and 2
  misclassified. The second iteration pops the lower child, which is below the
  threshold, and the loop ends: the higher child stays in the queue, unsplit.
\<close>

theorem growth_stops_witness:
  "\<exists>f f1 s ref pq n. NewForest 1 1 3 = Inr f
     \<and> trainInit ascending f [1, 2, 3, 4, 5, 6, 7, 8, 9, 10, 11, 12, 13, 14]
          [0, 0, 1, 1, 1, 1, 1, 0, 0, 0, 0, 0, 1, 1] = Inr f1
     \<and> growSteps ascending 1 f1 = Inr s
     \<and> leafQueue s = [Some (0, [False]), Some (0, [True])]
     \<and> heapPop (roots s) (leafQueue s) = Inr (Some ref, pq)
     \<and> derefNode (roots s) (Some ref) = Inr n
     \<and> misclassified n = 2 \<and> minMisclassified s = 3
     \<and> pq = [Some (0, [True])]
     \<and> decideFeature (nodeAt (hd (roots s)) [True]) = 0
     \<and> grow ascending s = Some (Inr (s \<lparr> leafQueue := pq \<rparr>))"
proof -
  have ev: "(case NewForest 1 1 3 of
               Inr f \<Rightarrow>
                 (case trainInit ascending f [1, 2, 3, 4, 5, 6, 7, 8, 9, 10, 11, 12, 13, 14]
                         [0, 0, 1, 1, 1, 1, 1, 0, 0, 0, 0, 0, 1, 1] of
                    Inr f1 \<Rightarrow>
                      (case growSteps ascending 1 f1 of
                         Inr s \<Rightarrow>
                           (case heapPop (roots s) (leafQueue s) of
                              Inr (Some ref, pq) \<Rightarrow>
                                derefNode (roots s) (Some ref)
                                    = Inr (nodeAt (hd (roots s)) (snd ref))
                                \<and> leafQueue s = [Some (0, [False]), Some (0, [True])]
                                \<and> misclassified (nodeAt (hd (roots s)) (snd ref)) = 2
                                \<and> minMisclassified s = 3
                                \<and> pq = [Some (0, [True])]
                                \<and> decideFeature (nodeAt (hd (roots s)) [True]) = 0
                            | _ \<Rightarrow> False)
                       | _ \<Rightarrow> False)
                  | _ \<Rightarrow> False)
             | _ \<Rightarrow> False)"
    by code_simp
  then obtain f f1 s ref pq n where r: "NewForest 1 1 3 = Inr f"
    "trainInit ascending f [1, 2, 3, 4, 5, 6, 7, 8, 9, 10, 11, 12, 13, 14]
          [0, 0, 1, 1, 1, 1, 1, 0, 0, 0, 0, 0, 1, 1] = Inr f1"
    "growSteps ascending 1 f1 = Inr s"
    "heapPop (roots s) (leafQueue s) = Inr (Some ref, pq)"
    "derefNode (roots s) (Some ref) = Inr n"
    "leafQueue s = [Some (0, [False]), Some (0, [True])]"
    "misclassified n = 2" "minMisclassified s = 3" "pq = [Some (0, [True])]"
    "decideFeature (nodeAt (hd (roots s)) [True]) = 0"
    by (auto simp del: growSteps.simps split: sum.splits option.splits prod.splits)
  from growth_stops [of s ascending ref pq n] r(4-8)
  have "grow ascending s = Some (Inr (s \<lparr> leafQueue := pq \<rparr>))" by simp
  with r show ?thesis by blast
qed

section \<open>The candidate of a node\<close>

text \<open>
  C3. \<open>precalcBestSplit\<close> runs on leaves as they are created, without children and
  without a candidate: on the root in \<open>Train\<close>, and in \<open>convertToBranch\<close> on a child that
  stores a positive count; the leaf's array is a window of the backing array, which
  holds a permutation of the frames. For a run on well-formed input, in every forest
  state \<open>g\<close> with the parameters and training data of this call (the state in which the
  root is evaluated is one), every such window and every stored count \<open>m \<ge> 0\<close>:
  \<open>splitReduction\<close> succeeds for every allowed feature, \<open>precalcBestSplit\<close> succeeds, and
  it records a candidate exactly if the least total count over the allowed features is
  below \<open>upperBar m\<close>, the truncation of \<open>0.99 * m\<close>; otherwise it leaves the node and the
  array as they were. A child of a split node that holds no candidate stays as it is in
  all later states of the loop, and if the root holds no candidate the trees never change.
\<close>

theorem candidate_iff_improvement:
  assumes "NewForest fs tc mm = Inr f"
    and "fs \<le> int (length samples)"
    and "length labels = length samples"
    and "ordersOK order"
  shows "\<exists>f1. trainInit order f samples labels = Inr f1
           \<and> allowed f1 = [features f1]
           \<and> (\<forall>r. static f1 (rootState f samples labels r))
           \<and> (\<forall>g h mem s l c m. static f1 g \<and> memOK g mem \<and> s + l \<le> length mem \<and> 0 \<le> m \<longrightarrow>
                 (\<forall>ft \<in> set (features g).
                    \<exists>cand. splitReduction g (take l (drop s mem)) (childLeaf s l c m 0) ft
                             = Inr cand)
               \<and> (\<exists>mem' n'. precalcBestSplit g (order h) mem (childLeaf s l c m 0)
                               = Inr (mem', n')
                     \<and> (decideFeature n' \<noteq> - 1 \<longleftrightarrow>
                          minMisses g (take l (drop s mem)) (childLeaf s l c m 0) < upperBar m)
                     \<and> (decideFeature n' = - 1 \<longrightarrow> n' = childLeaf s l c m 0 \<and> mem' = mem)))
           \<and> (\<forall>k. \<exists>st. growSteps order k f1 = Inr st
                  \<and> (\<forall>q j st'. settled (hd (roots st)) q
                                \<and> growSteps order (k + j) f1 = Inr st' \<longrightarrow>
                        settled (hd (roots st')) q
                        \<and> nodeAt (hd (roots st')) q = nodeAt (hd (roots st)) q)
                  \<and> (decideFeature (hd (roots f1)) = - 1 \<longrightarrow> roots st = roots f1))"
proof -
  from assms(2) have fs: "fs \<le> int (length samples) + 1" by simp
  from assms(3) have len: "fs \<le> int (length samples) \<Longrightarrow> length samples \<le> length labels"
    by simp
  from train_run [OF assms(1) fs len assms(4)]
  obtain f1 where ti: "trainInit order f samples labels = Inr f1"
    and inv: "Inv f1" and q: "leafQueue f1 = [Some (0, [])]"
    and sr: "\<forall>r. static f1 (rootState f samples labels r)" by blast
  from state_tree [OF inv] obtain t where t: "roots f1 = [t]"
    "wfNode 0 (nat (trainFrameCount f1)) t" and ctx: "trainCtx f1" by blast
  from ctx have al: "allowed f1 = [features f1]" by (simp add: trainCtx_def features_def)
  have A: "(\<forall>ft \<in> set (features g).
                    \<exists>cand. splitReduction g (take l (drop s mem)) (childLeaf s l c m 0) ft
                             = Inr cand)
               \<and> (\<exists>mem' n'. precalcBestSplit g (order h) mem (childLeaf s l c m 0)
                               = Inr (mem', n')
                     \<and> (decideFeature n' \<noteq> - 1 \<longleftrightarrow>
                          minMisses g (take l (drop s mem)) (childLeaf s l c m 0) < upperBar m)
                     \<and> (decideFeature n' = - 1 \<longrightarrow> n' = childLeaf s l c m 0 \<and> mem' = mem))"
    if "static f1 g \<and> memOK g mem \<and> s + l \<le> length mem \<and> 0 \<le> m" for g h mem s l c m
  proof -
    from that ctx have "trainCtx g" by (metis trainCtx_static)
    with that assms(4) show ?thesis by (intro precalc_iff) simp_all
  qed
  have B: "\<exists>st. growSteps order k f1 = Inr st
                  \<and> (\<forall>q j st'. settled (hd (roots st)) q
                                \<and> growSteps order (k + j) f1 = Inr st' \<longrightarrow>
                        settled (hd (roots st')) q
                        \<and> nodeAt (hd (roots st')) q = nodeAt (hd (roots st)) q)
                  \<and> (decideFeature (hd (roots f1)) = - 1 \<longrightarrow> roots st = roots f1)" for k
  proof -
    from growSteps_spec [OF assms(4) inv, of k]
    obtain st where st: "growSteps order k f1 = Inr st" by blast
    have "roots st = roots f1" if d: "decideFeature (hd (roots f1)) = - 1"
    proof (cases k)
      case 0
      with st show ?thesis by simp
    next
      case (Suc k')
      from wfNode_fields [OF t(2)] have "t \<noteq> NilNode" by simp
      from root_fresh_stops [OF t(1) q this, of order] d t(1)
      have "growBody order f1 = Inr (False, f1 \<lparr> leafQueue := [] \<rparr>)" by simp
      with st Suc q show ?thesis by auto
    qed
    with st growSteps_later [OF assms(4) inv st] show ?thesis by blast
  qed
  from ti al sr A B show ?thesis by blast
qed

text \<open>
  The run of the repository's test: the root stores 3, so the bar is 2; the least total
  count over the three features is 0, and the root records a candidate on feature 2.
\<close>

theorem candidate_iff_improvement_witness:
  "\<exists>f f1. NewForest 2 1 0 = Inr f
     \<and> trainInit ascending f [10, 15, 11, 12, 8, 3, 7] [0, 1, 0, 1, 0, 0, 1] = Inr f1
     \<and> allowed f1 = [[0, 1, 2]]
     \<and> minMisses f1 [0, 1, 2, 3, 4, 5] (childLeaf 0 6 False 3 0) = 0
     \<and> upperBar 3 = 2
     \<and> decideFeature (hd (roots f1)) = 2
     \<and> (\<forall>g h mem s l c m. static f1 g \<and> memOK g mem \<and> s + l \<le> length mem \<and> 0 \<le> m \<longrightarrow>
           (\<forall>ft \<in> set (features g).
              \<exists>cand. splitReduction g (take l (drop s mem)) (childLeaf s l c m 0) ft
                       = Inr cand)
         \<and> (\<exists>mem' n'. precalcBestSplit g (ascending h) mem (childLeaf s l c m 0)
                         = Inr (mem', n')
               \<and> (decideFeature n' \<noteq> - 1 \<longleftrightarrow>
                    minMisses g (take l (drop s mem)) (childLeaf s l c m 0) < upperBar m)
               \<and> (decideFeature n' = - 1 \<longrightarrow> n' = childLeaf s l c m 0 \<and> mem' = mem)))
     \<and> (\<forall>k. \<exists>st. growSteps ascending k f1 = Inr st
            \<and> (\<forall>q j st'. settled (hd (roots st)) q
                          \<and> growSteps ascending (k + j) f1 = Inr st' \<longrightarrow>
                  settled (hd (roots st')) q
                  \<and> nodeAt (hd (roots st')) q = nodeAt (hd (roots st)) q))"
proof -
  have ev: "(case NewForest 2 1 0 of
               Inr f \<Rightarrow>
                 (case trainInit ascending f [10, 15, 11, 12, 8, 3, 7] [0, 1, 0, 1, 0, 0, 1] of
                    Inr f1 \<Rightarrow>
                      allowed f1 = [[0, 1, 2]]
                      \<and> minMisses f1 [0, 1, 2, 3, 4, 5] (childLeaf 0 6 False 3 0) = 0
                      \<and> upperBar 3 = 2
                      \<and> decideFeature (hd (roots f1)) = 2
                  | _ \<Rightarrow> False)
             | _ \<Rightarrow> False)"
    by code_simp
  then obtain f f1 where r: "NewForest 2 1 0 = Inr f"
    "trainInit ascending f [10, 15, 11, 12, 8, 3, 7] [0, 1, 0, 1, 0, 0, 1] = Inr f1"
    "allowed f1 = [[0, 1, 2]]"
    "minMisses f1 [0, 1, 2, 3, 4, 5] (childLeaf 0 6 False 3 0) = 0"
    "upperBar 3 = 2"
    "decideFeature (hd (roots f1)) = 2"
    by (auto split: sum.splits)
  from candidate_iff_improvement [OF r(1) _ _ ordersOK_ascending,
      of "[10, 15, 11, 12, 8, 3, 7]" "[0, 1, 0, 1, 0, 0, 1]"] r(2)
  have "(\<forall>g h mem s l c m. static f1 g \<and> memOK g mem \<and> s + l \<le> length mem \<and> 0 \<le> m \<longrightarrow>
           (\<forall>ft \<in> set (features g).
              \<exists>cand. splitReduction g (take l (drop s mem)) (childLeaf s l c m 0) ft
                       = Inr cand)
         \<and> (\<exists>mem' n'. precalcBestSplit g (ascending h) mem (childLeaf s l c m 0)
                         = Inr (mem', n')
               \<and> (decideFeature n' \<noteq> - 1 \<longleftrightarrow>
                    minMisses g (take l (drop s mem)) (childLeaf s l c m 0) < upperBar m)
               \<and> (decideFeature n' = - 1 \<longrightarrow> n' = childLeaf s l c m 0 \<and> mem' = mem)))
     \<and> (\<forall>k. \<exists>st. growSteps ascending k f1 = Inr st
            \<and> (\<forall>q j st'. settled (hd (roots st)) q
                          \<and> growSteps ascending (k + j) f1 = Inr st' \<longrightarrow>
                  settled (hd (roots st')) q
                  \<and> nodeAt (hd (roots st')) q = nodeAt (hd (roots st)) q))"
    by (simp del: growSteps.simps) blast
  with r show ?thesis by blast
qed

section \<open>The stored count of a child\<close>

text \<open>
  C4 does not hold of the code. \<open>NewForest(1, 1, 0).Train([1, 2, 3, 4], [0, 0, 1, 1])\<close>
  (one feature, so the order of the map range plays no role) splits the root at the
  cutoff 3 with \<open>trueBelow = false\<close>. \<open>presplitOn\<close> then moves the frames with a score
  of at least the cutoff to the front: the lower child holds the frames 3 and 2, both
  labelled 1, is classified false and stores the count 0 of the frames below the cutoff,
  while 2 of its frames disagree with its classification; the higher child holds the
  frames 1 and 0, both labelled 0, is classified true and stores 0 as well.
\<close>

theorem stored_count_differs:
  "(case trainCall ascending 1 1 0 [1, 2, 3, 4] [0, 0, 1, 1] of
      Some (Inr f') \<Rightarrow>
        map (\<lambda>n. (nodeInputs (hd (inputsMem f')) n, classifyAsTrue n, misclassified n,
                   actualMisclassified f' (hd (inputsMem f')) n))
          [hd (roots f'), lowerChild (hd (roots f')), highEqChild (hd (roots f'))]
    | _ \<Rightarrow> [])
   = [([3, 2, 1, 0], False, 2, 2), ([3, 2], False, 0, 2), ([1, 0], True, 0, 2)]"
  by code_simp

section \<open>The frames of the leaves\<close>

text \<open>
  C5. For a forest made by \<open>NewForest\<close>, samples at least as long as the frame and as many
  labels as samples, \<open>Train\<close> completes, and in the state after any number of iterations
  of the growth loop (the final state of \<open>Train\<close> is one of them): every node that has
  children has, in the arrays of its two children, exactly its own frames, as multisets;
  the arrays of the leaves, put together, hold every frame \<open>0, ..., frameCount - 1\<close>
  exactly once, so they are pairwise disjoint and nothing is lost.
\<close>

theorem frames_partitioned:
  assumes "NewForest fs tc mm = Inr f"
    and "fs \<le> int (length samples)"
    and "length labels = length samples"
    and "ordersOK order"
  shows "\<exists>f1 f'. trainInit order f samples labels = Inr f1
           \<and> Train order f samples labels = Some (Inr f')
           \<and> (\<exists>k. growSteps order k f1 = Inr f')
           \<and> (\<forall>k. \<exists>s t mem. growSteps order k f1 = Inr s
                  \<and> roots s = [t] \<and> inputsMem s = [mem]
                  \<and> splitsPartition mem t
                  \<and> mset (concat (leafArrays mem t))
                      = mset (map int [0 ..< nat (int (length samples) - fs + 1)])
                  \<and> distinct (concat (leafArrays mem t)))"
proof -
  from assms(2) have fs: "fs \<le> int (length samples) + 1" by simp
  from assms(3) have len: "fs \<le> int (length samples) \<Longrightarrow> length samples \<le> length labels"
    by simp
  from train_run [OF assms(1) fs len assms(4)]
  obtain f1 f' k where ti: "trainInit order f samples labels = Inr f1"
    and tr: "Train order f samples labels = Some (Inr f')"
    and inv: "Inv f1" and fc: "trainFrameCount f1 = int (length samples) - fs + 1"
    and la: "\<forall>j. k < j \<longrightarrow> growSteps order j f1 = Inr f'" by blast
  from la have fin: "\<exists>k. growSteps order k f1 = Inr f'" by blast
  have "\<exists>s t mem. growSteps order j f1 = Inr s
                  \<and> roots s = [t] \<and> inputsMem s = [mem]
                  \<and> splitsPartition mem t
                  \<and> mset (concat (leafArrays mem t))
                      = mset (map int [0 ..< nat (int (length samples) - fs + 1)])
                  \<and> distinct (concat (leafArrays mem t))" for j
  proof -
    from growSteps_spec [OF assms(4) inv, of j]
    obtain s where s: "growSteps order j f1 = Inr s" "Inv s" "static f1 s" by blast
    from s(3) fc have "trainFrameCount s = int (length samples) - fs + 1"
      by (simp add: static_def)
    with state_arrays [OF s(2)] s(1) show ?thesis by auto
  qed
  with ti tr fin show ?thesis by blast
qed

text \<open>
  The run of the repository's test, \<open>NewForest(2, 1, 0).Train(...)\<close>: six frames; the
  two leaves of the result hold the frames 0, 5, 2 and 3, 4, 1.
\<close>

theorem frames_partitioned_witness:
  "\<exists>f f1 f'. NewForest 2 1 0 = Inr f
     \<and> trainInit ascending f [10, 15, 11, 12, 8, 3, 7] [0, 1, 0, 1, 0, 0, 1] = Inr f1
     \<and> Train ascending f [10, 15, 11, 12, 8, 3, 7] [0, 1, 0, 1, 0, 0, 1] = Some (Inr f')
     \<and> leafArrays (hd (inputsMem f')) (hd (roots f')) = [[0, 5, 2], [3, 4, 1]]
     \<and> (\<forall>k. \<exists>s t mem. growSteps ascending k f1 = Inr s
            \<and> roots s = [t] \<and> inputsMem s = [mem]
            \<and> splitsPartition mem t
            \<and> mset (concat (leafArrays mem t)) = mset (map int [0 ..< 6])
            \<and> distinct (concat (leafArrays mem t)))"
proof -
  obtain f where nf: "NewForest 2 1 0 = Inr f" by (simp add: NewForest_def)
  have ev: "(case trainCall ascending 2 1 0 [10, 15, 11, 12, 8, 3, 7] [0, 1, 0, 1, 0, 0, 1] of
               Some (Inr f') \<Rightarrow> leafArrays (hd (inputsMem f')) (hd (roots f'))
             | _ \<Rightarrow> []) = [[0, 5, 2], [3, 4, 1]]"
    by code_simp
  from frames_partitioned [OF nf _ _ ordersOK_ascending,
      of "[10, 15, 11, 12, 8, 3, 7]" "[0, 1, 0, 1, 0, 0, 1]"]
  obtain f1 f' where r: "trainInit ascending f [10, 15, 11, 12, 8, 3, 7] [0, 1, 0, 1, 0, 0, 1] = Inr f1"
    "Train ascending f [10, 15, 11, 12, 8, 3, 7] [0, 1, 0, 1, 0, 0, 1] = Some (Inr f')"
    "\<forall>k. \<exists>s t mem. growSteps ascending k f1 = Inr s
            \<and> roots s = [t] \<and> inputsMem s = [mem]
            \<and> splitsPartition mem t
            \<and> mset (concat (leafArrays mem t)) = mset (map int [0 ..< 6])
            \<and> distinct (concat (leafArrays mem t))"
    by auto
  from ev nf r(2) have "leafArrays (hd (inputsMem f')) (hd (roots f')) = [[0, 5, 2], [3, 4, 1]]"
    by (simp add: trainCall_def)
  with nf r show ?thesis by blast
qed

section \<open>Feature extractor: contract\<close>

text \<open>
  C6. With a frame inside the samples (and a frame size of at least 1, which
  \<open>NewForest\<close> enforces), the score of a raw feature \<open>0 \<le> featureIndex < frameSize\<close> is the
  sample at that offset of the frame; the score of a difference feature
  \<open>frameSize \<le> featureIndex < 2 * frameSize - 1\<close> is \<open>samples[frameStart + j + 1] -
  samples[frameStart + j]\<close> for \<open>j = featureIndex - frameSize\<close> (Go's wrapping
  subtraction, read as a signed integer); every \<open>featureIndex \<ge> 2 * frameSize - 1\<close>
  fails with the unsupported-feature panic.
\<close>

theorem score_contract:
  assumes "1 \<le> frameSize f" and "0 \<le> frameStart"
    and "frameStart + frameSize f \<le> int (length (trainSamples f))"
  shows "(0 \<le> featureIndex \<and> featureIndex < frameSize f \<longrightarrow>
            scoreForFrameAndFeature f frameStart featureIndex =
              Inr (sint (trainSamples f ! nat (frameStart + featureIndex))))
       \<and> (frameSize f \<le> featureIndex \<and> featureIndex < 2 * frameSize f - 1 \<longrightarrow>
            scoreForFrameAndFeature f frameStart featureIndex =
              Inr (sint (trainSamples f ! nat (frameStart + (featureIndex - frameSize f) + 1)
                         - trainSamples f ! nat (frameStart + (featureIndex - frameSize f)))))
       \<and> (2 * frameSize f - 1 \<le> featureIndex \<longrightarrow>
            scoreForFrameAndFeature f frameStart featureIndex = Inl UnsupportedFeature)"
proof (intro conjI impI)
  assume "0 \<le> featureIndex \<and> featureIndex < frameSize f"
  with assms show "scoreForFrameAndFeature f frameStart featureIndex =
      Inr (sint (trainSamples f ! nat (frameStart + featureIndex)))"
    by (simp add: scoreForFrameAndFeature_def idx_in_range)
next
  assume a: "frameSize f \<le> featureIndex \<and> featureIndex < 2 * frameSize f - 1"
  let ?first = "frameStart + (featureIndex - frameSize f)"
  from a assms have "0 \<le> ?first" "?first + 1 < int (length (trainSamples f))" by simp_all
  then have "idx (trainSamples f) (?first + 1) = Inr (trainSamples f ! nat (?first + 1))"
    "idx (trainSamples f) ?first = Inr (trainSamples f ! nat ?first)"
    by (simp_all add: idx_in_range)
  with a show "scoreForFrameAndFeature f frameStart featureIndex =
      Inr (sint (trainSamples f ! nat (?first + 1) - trainSamples f ! nat ?first))"
    by (simp add: scoreForFrameAndFeature_def Let_def)
next
  assume "2 * frameSize f - 1 \<le> featureIndex"
  with assms show "scoreForFrameAndFeature f frameStart featureIndex = Inl UnsupportedFeature"
    by (simp add: scoreForFrameAndFeature_def)
qed

text \<open>
  The instance of the specification: frame size 3, so five features; feature 4 of frame 0
  is \<open>samples[2] - samples[1]\<close> and feature 5 is out of range.
\<close>

theorem score_contract_witness:
  "(case NewForest 3 1 0 of
      Inl e \<Rightarrow> False
    | Inr f \<Rightarrow>
        1 \<le> frameSize f
        \<and> scoreForFrameAndFeature (f \<lparr> trainSamples := [5, 7, 12] \<rparr>) 0 4 = Inr 5
        \<and> scoreForFrameAndFeature (f \<lparr> trainSamples := [5, 7, 12] \<rparr>) 0 2 = Inr 12
        \<and> scoreForFrameAndFeature (f \<lparr> trainSamples := [5, 7, 12] \<rparr>) 0 5 = Inl UnsupportedFeature)"
  using score_contract [of "\<lparr> frameSize = 3, treeCount = 1, minMisclassified = 0,
      leafQueue = [None], allowed = [[0, 1, 2, 3, 4]], roots = [NilNode], inputsMem = [[]],
      trainFrameCount = - 1, trainSamples = [5, 7, 12], trainExpected = [] \<rparr>" 0 4]
    score_contract [of "\<lparr> frameSize = 3, treeCount = 1, minMisclassified = 0,
      leafQueue = [None], allowed = [[0, 1, 2, 3, 4]], roots = [NilNode], inputsMem = [[]],
      trainFrameCount = - 1, trainSamples = [5, 7, 12], trainExpected = [] \<rparr>" 0 2]
    score_contract [of "\<lparr> frameSize = 3, treeCount = 1, minMisclassified = 0,
      leafQueue = [None], allowed = [[0, 1, 2, 3, 4]], roots = [NilNode], inputsMem = [[]],
      trainFrameCount = - 1, trainSamples = [5, 7, 12], trainExpected = [] \<rparr>" 0 5]
  by (simp add: NewForest_def upt_conv_Cons)

section \<open>The stored counts along the tree\<close>

text \<open>
  C7. Under the same conditions, in the state after any number of iterations every node
  that was split (turned into a branch) stores a count at least as large as the sum of
  the counts its two children store; and for the forest that \<open>Train\<close> returns,
  \<open>AverageErrors\<close> succeeds with a value of at most the count stored in the root when it
  was created, which is the smaller of the number of frames labelled 1 and the number of
  the other frames.
\<close>

theorem errors_do_not_grow:
  assumes "NewForest fs tc mm = Inr f"
    and "fs \<le> int (length samples)"
    and "length labels = length samples"
    and "ordersOK order"
  shows "\<exists>f1 f' e. trainInit order f samples labels = Inr f1
           \<and> Train order f samples labels = Some (Inr f')
           \<and> (\<forall>k. \<exists>s t. growSteps order k f1 = Inr s \<and> roots s = [t] \<and> splitsReduce t)
           \<and> (\<exists>k. growSteps order k f1 = Inr f')
           \<and> AverageErrors f' = Inr e
           \<and> e \<le> real_of_int (misclassified (hd (roots f1)))
           \<and> misclassified (hd (roots f1)) =
               (let frameCount = int (length samples) - fs + 1;
                    ones = int (length (filter (\<lambda>i. labels ! nat (int i + fs - 1) = 1)
                                  [0 ..< nat frameCount]))
                in min ones (frameCount - ones))"
proof -
  from assms(2) have fs: "fs \<le> int (length samples) + 1" by simp
  from assms(3) have len: "fs \<le> int (length samples) \<Longrightarrow> length samples \<le> length labels"
    by simp
  from train_run [OF assms(1) fs len assms(4)]
  obtain f1 f' k where ti: "trainInit order f samples labels = Inr f1"
    and tr: "Train order f samples labels = Some (Inr f')"
    and inv: "Inv f1"
    and m: "misclassified (hd (roots f1)) =
               (let ones = int (length (filter (\<lambda>i. labels ! nat (int i + fs - 1) = 1)
                                  [0 ..< nat (int (length samples) - fs + 1)]))
                in min ones (int (length samples) - fs + 1 - ones))"
    and la: "\<forall>j. k < j \<longrightarrow> growSteps order j f1 = Inr f'" by blast
  have "k < Suc k" by simp
  with la have fin: "growSteps order (Suc k) f1 = Inr f'" by blast
  have st: "\<exists>s t. growSteps order j f1 = Inr s \<and> roots s = [t] \<and> splitsReduce t" for j
  proof -
    from growSteps_spec [OF assms(4) inv, of j]
    obtain s where s: "growSteps order j f1 = Inr s" "Inv s" by blast
    from state_tree [OF s(2)] obtain t where "roots s = [t]" "wfNode 0 (nat (trainFrameCount s)) t"
      by blast
    with wfNode_errors [of 0 "nat (trainFrameCount s)" t] s(1) show ?thesis by blast
  qed
  from growSteps_spec [OF assms(4) inv, of "Suc k"] fin
  have i': "Inv f'" and rk: "rootKept f1 f'" by auto
  from state_tree [OF i'] obtain t where t: "roots f' = [t]" "wfNode 0 (nat (trainFrameCount f')) t"
    by blast
  from wfNode_errors [OF t(2)] obtain e where e: "totalErrors t = Inr e" "e \<le> misclassified t"
    by blast
  from rk t(1) have "misclassified t = misclassified (hd (roots f1))" by (simp add: rootKept_def)
  with e t(1) have "AverageErrors f' = Inr (real_of_int e)"
    "real_of_int e \<le> real_of_int (misclassified (hd (roots f1)))"
    by (simp_all add: AverageErrors_def)
  with ti tr st fin m show ?thesis unfolding Let_def by blast
qed

text \<open>
  The same run: the root starts with 3 misclassified frames, both children store 0, and
  \<open>AverageErrors\<close> is 0 at the end.
\<close>

theorem errors_do_not_grow_witness:
  "\<exists>f f1 f' e. NewForest 2 1 0 = Inr f
     \<and> trainInit ascending f [10, 15, 11, 12, 8, 3, 7] [0, 1, 0, 1, 0, 0, 1] = Inr f1
     \<and> Train ascending f [10, 15, 11, 12, 8, 3, 7] [0, 1, 0, 1, 0, 0, 1] = Some (Inr f')
     \<and> (\<forall>k. \<exists>s t. growSteps ascending k f1 = Inr s \<and> roots s = [t] \<and> splitsReduce t)
     \<and> AverageErrors f' = Inr e
     \<and> e \<le> real_of_int (misclassified (hd (roots f1)))
     \<and> misclassified (hd (roots f1)) = 3"
proof -
  obtain f where nf: "NewForest 2 1 0 = Inr f" by (simp add: NewForest_def)
  have ev: "(let frameCount = int (length [10, 15, 11, 12, 8, 3, 7 :: sample]) - 2 + 1;
                 ones = int (length (filter
                          (\<lambda>i. [0, 1, 0, 1, 0, 0, 1 :: int] ! nat (int i + 2 - 1) = 1)
                          [0 ..< nat frameCount]))
             in min ones (frameCount - ones)) = 3"
    by code_simp
  from errors_do_not_grow [OF nf _ _ ordersOK_ascending,
      of "[10, 15, 11, 12, 8, 3, 7]" "[0, 1, 0, 1, 0, 0, 1]", unfolded ev]
  obtain f1 f' e where r: "trainInit ascending f [10, 15, 11, 12, 8, 3, 7] [0, 1, 0, 1, 0, 0, 1] = Inr f1"
    "Train ascending f [10, 15, 11, 12, 8, 3, 7] [0, 1, 0, 1, 0, 0, 1] = Some (Inr f')"
    "\<forall>k. \<exists>s t. growSteps ascending k f1 = Inr s \<and> roots s = [t] \<and> splitsReduce t"
    "AverageErrors f' = Inr e"
    "e \<le> real_of_int (misclassified (hd (roots f1)))"
    "misclassified (hd (roots f1)) = 3"
    by auto
  with nf show ?thesis by blast
qed

section \<open>Failing training calls\<close>

text \<open>
  C8, as the code has it. A training call (\<open>NewForest\<close>, then \<open>Train\<close>) always returns. It
  fails with an error exactly if the tree count is not 1, or the frame size is below 1,
  or the frame size exceeds \<open>len(samples) + 1\<close>, or there is at least one frame and there
  are fewer labels than samples. In every other case it completes: with more labels than
  samples, and with a frame size of \<open>len(samples) + 1\<close> (no frame at all), no error is
  raised. The stopping threshold plays no role.
\<close>

theorem trainCall_fails_iff:
  assumes "ordersOK order"
  shows "(failsWithError (trainCall order fs tc mm samples labels) \<longleftrightarrow>
            tc \<noteq> 1 \<or> fs < 1 \<or> int (length samples) + 1 < fs
            \<or> (fs \<le> int (length samples) \<and> length labels < length samples))
       \<and> (completes (trainCall order fs tc mm samples labels) \<longleftrightarrow>
            \<not> failsWithError (trainCall order fs tc mm samples labels))"
proof -
  define ok where "ok \<longleftrightarrow> tc = 1 \<and> 1 \<le> fs \<and> fs \<le> int (length samples) + 1
            \<and> (fs \<le> int (length samples) \<longrightarrow> length samples \<le> length labels)"
  note c = trainCall_cases [OF assms, of tc fs samples labels mm, folded ok_def]
  have e: "(tc \<noteq> 1 \<or> fs < 1 \<or> int (length samples) + 1 < fs
            \<or> (fs \<le> int (length samples) \<and> length labels < length samples)) \<longleftrightarrow> \<not> ok"
    by (auto simp: ok_def)
  show ?thesis
  proof (cases ok)
    case True
    with c obtain f' where "trainCall order fs tc mm samples labels = Some (Inr f')" by blast
    with True e show ?thesis by (simp add: failsWithError_def completes_def)
  next
    case False
    with c obtain er where "trainCall order fs tc mm samples labels = Some (Inl er)" by blast
    with False e show ?thesis by (simp add: failsWithError_def completes_def)
  qed
qed

text \<open>
  Two calls that the specification expects to fail and that complete: a frame size of
  \<open>len(samples) + 1\<close> (the forest has a root without frames), and more labels than
  samples.
\<close>

theorem trainCall_fails_iff_counterexample:
  "completes (trainCall ascending 2 1 0 [10] [0])
   \<and> completes (trainCall ascending 1 1 0 [10, 3] [0, 1, 1])"
  by code_simp

text \<open>
  Calls that fail: a frame size above \<open>len(samples) + 1\<close>, fewer labels than samples, a
  tree count of 2; and the repository's test, which completes.
\<close>

theorem trainCall_fails_iff_witness:
  "failsWithError (trainCall ascending 3 1 0 [10] [0])
   \<and> failsWithError (trainCall ascending 1 1 0 [10, 3] [0])
   \<and> failsWithError (trainCall ascending 1 2 0 [10] [0])
   \<and> completes (trainCall ascending 2 1 0 [10, 15, 11, 12, 8, 3, 7] [0, 1, 0, 1, 0, 0, 1])"
  using trainCall_fails_iff [OF ordersOK_ascending, of 3 1 0 "[10]" "[0]"]
    trainCall_fails_iff [OF ordersOK_ascending, of 1 1 0 "[10, 3]" "[0]"]
    trainCall_fails_iff [OF ordersOK_ascending, of 1 2 0 "[10]" "[0]"]
    trainCall_fails_iff [OF ordersOK_ascending, of 2 1 0 "[10, 15, 11, 12, 8, 3, 7]"
      "[0, 1, 0, 1, 0, 0, 1]"]
  by simp

section \<open>Termination\<close>

text \<open>
  C9. Under the same conditions (whatever the stopping threshold), \<open>Train\<close> returns a
  forest and no error: after some number \<open>k\<close> of iterations the growth loop is in a state
  \<open>s\<close> in which it ends, either because the queue is empty, or because the popped leaf
  has no candidate split or stores a count below \<open>minMisclassified\<close>; the state it ends in
  is the result, and taking more iterations changes nothing.
\<close>

theorem train_terminates:
  assumes "NewForest fs tc mm = Inr f"
    and "fs \<le> int (length samples)"
    and "length labels = length samples"
    and "ordersOK order"
  shows "\<exists>f1 f' k s. trainInit order f samples labels = Inr f1
           \<and> Train order f samples labels = Some (Inr f')
           \<and> growSteps order k f1 = Inr s
           \<and> ((leafQueue s = [] \<and> f' = s)
              \<or> (\<exists>ref pq n. leafQueue s \<noteq> []
                    \<and> heapPop (roots s) (leafQueue s) = Inr (Some ref, pq)
                    \<and> derefNode (roots s) (Some ref) = Inr n
                    \<and> (decideFeature n = - 1 \<or> misclassified n < minMisclassified s)
                    \<and> f' = s \<lparr> leafQueue := pq \<rparr>))
           \<and> (\<forall>j. k < j \<longrightarrow> growSteps order j f1 = Inr f')"
proof -
  from assms(2) have fs: "fs \<le> int (length samples) + 1" by simp
  from assms(3) have len: "fs \<le> int (length samples) \<Longrightarrow> length samples \<le> length labels"
    by simp
  from train_run [OF assms(1) fs len assms(4)]
  obtain f1 f' k s where ti: "trainInit order f samples labels = Inr f1"
    and tr: "Train order f samples labels = Some (Inr f')"
    and ks: "growSteps order k f1 = Inr s" "exitsAt order s f'"
    and la: "\<forall>j. k < j \<longrightarrow> growSteps order j f1 = Inr f'" by blast
  from exitsAt_reason [OF ks(2)] ti tr ks(1) la show ?thesis by blast
qed

text \<open>The same run ends with an empty queue.\<close>

theorem train_terminates_witness:
  "\<exists>f f1 f' k s. NewForest 2 1 0 = Inr f
     \<and> trainInit ascending f [10, 15, 11, 12, 8, 3, 7] [0, 1, 0, 1, 0, 0, 1] = Inr f1
     \<and> Train ascending f [10, 15, 11, 12, 8, 3, 7] [0, 1, 0, 1, 0, 0, 1] = Some (Inr f')
     \<and> leafQueue f' = []
     \<and> growSteps ascending k f1 = Inr s
     \<and> ((leafQueue s = [] \<and> f' = s)
        \<or> (\<exists>ref pq n. leafQueue s \<noteq> []
              \<and> heapPop (roots s) (leafQueue s) = Inr (Some ref, pq)
              \<and> derefNode (roots s) (Some ref) = Inr n
              \<and> (decideFeature n = - 1 \<or> misclassified n < minMisclassified s)
              \<and> f' = s \<lparr> leafQueue := pq \<rparr>))"
proof -
  obtain f where nf: "NewForest 2 1 0 = Inr f" by (simp add: NewForest_def)
  have ev: "(case trainCall ascending 2 1 0 [10, 15, 11, 12, 8, 3, 7] [0, 1, 0, 1, 0, 0, 1] of
               Some (Inr f') \<Rightarrow> leafQueue f' = []
             | _ \<Rightarrow> False)"
    by code_simp
  from train_terminates [OF nf _ _ ordersOK_ascending,
      of "[10, 15, 11, 12, 8, 3, 7]" "[0, 1, 0, 1, 0, 0, 1]"]
  obtain f1 f' k s where r: "trainInit ascending f [10, 15, 11, 12, 8, 3, 7] [0, 1, 0, 1, 0, 0, 1] = Inr f1"
    "Train ascending f [10, 15, 11, 12, 8, 3, 7] [0, 1, 0, 1, 0, 0, 1] = Some (Inr f')"
    "growSteps ascending k f1 = Inr s"
    "(leafQueue s = [] \<and> f' = s)
        \<or> (\<exists>ref pq n. leafQueue s \<noteq> []
              \<and> heapPop (roots s) (leafQueue s) = Inr (Some ref, pq)
              \<and> derefNode (roots s) (Some ref) = Inr n
              \<and> (decideFeature n = - 1 \<or> misclassified n < minMisclassified s)
              \<and> f' = s \<lparr> leafQueue := pq \<rparr>)"
    by auto
  from ev nf r(2) have "leafQueue f' = []" by (simp add: trainCall_def)
  with nf r show ?thesis by blast
qed

section \<open>The comparisons of the queue\<close>

text \<open>
  C10. Under the same conditions \<open>Train\<close> returns a forest, so no comparison of the queue
  met an absent child (\<open>Less\<close> fails with the nil dereference on one, and every heap
  operation passes that failure on). The queue that \<open>heap.Init\<close> leaves holds the root
  alone, and neither \<open>heap.Init\<close> nor \<open>heap.Pop\<close> compares anything on a queue of one
  element: they succeed whatever the nodes are. In the state after any number of
  iterations, either every queued pointer refers to a node that holds a candidate and
  both children, and \<open>Less\<close> succeeds on any two positions of the queue, or no iteration
  has run yet and the queue is the root alone.
\<close>

theorem comparisons_safe:
  assumes "NewForest fs tc mm = Inr f"
    and "fs \<le> int (length samples)"
    and "length labels = length samples"
    and "ordersOK order"
  shows "\<exists>f1 f'. trainInit order f samples labels = Inr f1
           \<and> Train order f samples labels = Some (Inr f')
           \<and> leafQueue f1 = [Some (0, [])]
           \<and> (\<forall>rs r. heapInit rs [r] = Inr [r] \<and> heapPop rs [r] = Inr (r, []))
           \<and> (\<forall>k. \<exists>s. growSteps order k f1 = Inr s
                  \<and> (((\<forall>r \<in> set (leafQueue s). \<exists>n. derefNode (roots s) r = Inr n
                          \<and> decideFeature n \<noteq> - 1
                          \<and> lowerChild n \<noteq> NilNode \<and> highEqChild n \<noteq> NilNode)
                       \<and> (\<forall>i j. i < length (leafQueue s) \<and> j < length (leafQueue s) \<longrightarrow>
                            (\<exists>b. Less (roots s) (leafQueue s) (int i) (int j) = Inr b)))
                      \<or> (k = 0 \<and> leafQueue s = [Some (0, [])])))"
proof -
  from assms(2) have fs: "fs \<le> int (length samples) + 1" by simp
  from assms(3) have len: "fs \<le> int (length samples) \<Longrightarrow> length samples \<le> length labels"
    by simp
  from train_run [OF assms(1) fs len assms(4)]
  obtain f1 f' where ti: "trainInit order f samples labels = Inr f1"
    and tr: "Train order f samples labels = Some (Inr f')"
    and inv: "Inv f1" and q: "leafQueue f1 = [Some (0, [])]" by blast
  have single: "heapInit rs [r] = Inr [r] \<and> heapPop rs [r] = Inr (r, [])"
    for rs :: "node list" and r :: nodeRef
  proof -
    from heapPop_spec [of "[r]" rs]
    obtain pq' where "heapPop rs [r] = Inr (r, pq')" "mset [r] = add_mset r (mset pq')" by auto
    then show ?thesis by (simp add: heapInit_single)
  qed
  have st: "\<exists>s. growSteps order k f1 = Inr s
                  \<and> (((\<forall>r \<in> set (leafQueue s). \<exists>n. derefNode (roots s) r = Inr n
                          \<and> decideFeature n \<noteq> - 1
                          \<and> lowerChild n \<noteq> NilNode \<and> highEqChild n \<noteq> NilNode)
                       \<and> (\<forall>i j. i < length (leafQueue s) \<and> j < length (leafQueue s) \<longrightarrow>
                            (\<exists>b. Less (roots s) (leafQueue s) (int i) (int j) = Inr b)))
                      \<or> (k = 0 \<and> leafQueue s = [Some (0, [])]))" for k
  proof (cases k)
    case 0
    have g: "growSteps order 0 f1 = Inr f1" by simp
    from inv have "InvQ f1 \<or> leafQueue f1 = [Some (0, [])]" by (auto simp: Inv_def)
    then show ?thesis
    proof
      assume "InvQ f1"
      from state_queue [OF this] g 0 show ?thesis by (simp only:) blast
    next
      assume "leafQueue f1 = [Some (0, [])]"
      with g 0 show ?thesis by simp
    qed
  next
    case (Suc k')
    from growSteps_spec [OF assms(4) inv, of k]
    obtain s where s: "growSteps order k f1 = Inr s"
      "0 < k \<longrightarrow> InvQ s \<or> (s = f1 \<and> leafQueue f1 = [])" by blast
    with Suc q have "InvQ s" by simp
    from state_queue [OF this] s(1) show ?thesis by (simp only:) blast
  qed
  from ti tr q single st show ?thesis by blast
qed

text \<open>The same run.\<close>

theorem comparisons_safe_witness:
  "\<exists>f f1 f'. NewForest 2 1 0 = Inr f
     \<and> trainInit ascending f [10, 15, 11, 12, 8, 3, 7] [0, 1, 0, 1, 0, 0, 1] = Inr f1
     \<and> Train ascending f [10, 15, 11, 12, 8, 3, 7] [0, 1, 0, 1, 0, 0, 1] = Some (Inr f')
     \<and> leafQueue f1 = [Some (0, [])]
     \<and> (\<forall>k. \<exists>s. growSteps ascending k f1 = Inr s
            \<and> (((\<forall>r \<in> set (leafQueue s). \<exists>n. derefNode (roots s) r = Inr n
                    \<and> decideFeature n \<noteq> - 1
                    \<and> lowerChild n \<noteq> NilNode \<and> highEqChild n \<noteq> NilNode)
                 \<and> (\<forall>i j. i < length (leafQueue s) \<and> j < length (leafQueue s) \<longrightarrow>
                      (\<exists>b. Less (roots s) (leafQueue s) (int i) (int j) = Inr b)))
                \<or> (k = 0 \<and> leafQueue s = [Some (0, [])])))"
proof -
  obtain f where nf: "NewForest 2 1 0 = Inr f" by (simp add: NewForest_def)
  from comparisons_safe [OF nf _ _ ordersOK_ascending,
      of "[10, 15, 11, 12, 8, 3, 7]" "[0, 1, 0, 1, 0, 0, 1]"]
  obtain f1 f' where r: "trainInit ascending f [10, 15, 11, 12, 8, 3, 7] [0, 1, 0, 1, 0, 0, 1] = Inr f1"
    "Train ascending f [10, 15, 11, 12, 8, 3, 7] [0, 1, 0, 1, 0, 0, 1] = Some (Inr f')"
    "leafQueue f1 = [Some (0, [])]"
    "\<forall>k. \<exists>s. growSteps ascending k f1 = Inr s
            \<and> (((\<forall>r \<in> set (leafQueue s). \<exists>n. derefNode (roots s) r = Inr n
                    \<and> decideFeature n \<noteq> - 1
                    \<and> lowerChild n \<noteq> NilNode \<and> highEqChild n \<noteq> NilNode)
                 \<and> (\<forall>i j. i < length (leafQueue s) \<and> j < length (leafQueue s) \<longrightarrow>
                      (\<exists>b. Less (roots s) (leafQueue s) (int i) (int j) = Inr b)))
                \<or> (k = 0 \<and> leafQueue s = [Some (0, [])]))"
    by auto
  with nf show ?thesis by blast
qed

end
